theory Spec2Isabelle
  imports Complex_Main
begin

section \<open>Errors and Python/numpy primitives\<close>

text \<open>
  The exceptions raised in \<^verbatim>\<open>scipy/sparse/lil.py\<close> (and by the numpy and list
  primitives it calls) are values of an error type; a function that may raise returns
  \<open>error + 'a\<close> with \<open>Inl\<close> for the exception.
\<close>

datatype error = IndexError | ValueError | TypeError | AttributeError

definition ebind :: "error + 'a \<Rightarrow> ('a \<Rightarrow> error + 'b) \<Rightarrow> error + 'b" where
  "ebind r f = (case r of Inl e \<Rightarrow> Inl e | Inr v \<Rightarrow> f v)"

text \<open>
  Indexing a one-dimensional numpy array of length \<open>n\<close> with an integer: a negative
  index counts from the end, anything outside \<open>[-n, n)\<close> raises IndexError. The
  result is the resolved position.
\<close>

definition np_index :: "nat \<Rightarrow> int \<Rightarrow> error + nat" where
  "np_index n i =
     (if - int n \<le> i \<and> i < int n
      then Inr (nat (if i < 0 then i + int n else i))
      else Inl IndexError)"

text \<open>
  \<^verbatim>\<open>bisect.bisect_left(a, x)\<close> of the Python standard library:
  \<^verbatim>\<open>
  lo, hi = 0, len(a)
  while lo < hi:
      mid = (lo + hi) // 2
      if a[mid] < x: lo = mid + 1
      else: hi = mid
  return lo
  \<close>
\<close>

function bisect_loop :: "int list \<Rightarrow> int \<Rightarrow> nat \<Rightarrow> nat \<Rightarrow> nat" where
  "bisect_loop a x lo hi =
     (if lo < hi then
        (if a ! ((lo + hi) div 2) < x
         then bisect_loop a x ((lo + hi) div 2 + 1) hi
         else bisect_loop a x lo ((lo + hi) div 2))
      else lo)"
  by pat_completeness auto
termination
  by (relation "measure (\<lambda>(a, x, lo, hi). hi - lo)") auto

declare bisect_loop.simps [simp del]

definition bisect_left :: "int list \<Rightarrow> int \<Rightarrow> nat" where
  "bisect_left a x = bisect_loop a x 0 (length a)"

text \<open>\<^verbatim>\<open>list.insert(pos, v)\<close> (a position past the end appends) and \<^verbatim>\<open>del xs[pos]\<close>.\<close>

definition list_insert :: "'a list \<Rightarrow> nat \<Rightarrow> 'a \<Rightarrow> 'a list" where
  "list_insert xs pos v = take pos xs @ v # drop pos xs"

definition list_del :: "'a list \<Rightarrow> nat \<Rightarrow> 'a list" where
  "list_del xs pos = take pos xs @ drop (Suc pos) xs"

section \<open>The matrix\<close>

text \<open>
  A \<^verbatim>\<open>lil_matrix\<close> has a shape \<open>(M, N)\<close>, an array \<open>rows\<close> of \<open>M\<close> lists of column
  indices and an array \<open>data\<close> of \<open>M\<close> lists of values. The element type is any type
  with a zero.
\<close>

record 'a lil_matrix =
  shape :: "nat \<times> nat"
  rows :: "int list list"
  data :: "'a list list"

text \<open>\<^verbatim>\<open>lil_matrix((M, N))\<close>: every row starts as a pair of empty lists.\<close>

definition lil_empty :: "nat \<times> nat \<Rightarrow> 'a lil_matrix" where
  "lil_empty s = \<lparr>shape = s, rows = replicate (fst s) [], data = replicate (fst s) []\<rparr>"

text \<open>\<^verbatim>\<open>getnnz\<close>: the sum of the lengths of the value lists.\<close>

definition getnnz :: "'a lil_matrix \<Rightarrow> nat" where
  "getnnz A = sum_list (map length (data A))"

text \<open>
  A value handed to \<^verbatim>\<open>_insertat2\<close>: a scalar of the element type, something that is
  not a scalar (\<^verbatim>\<open>np.isscalar\<close> fails), or a scalar that the element type's
  constructor rejects.
\<close>

datatype 'a pyval = Scalar 'a | Sequence | Unconvertible

text \<open>
  \<^verbatim>\<open>_insertat2(row, data, j, x)\<close> on the two lists of one row; \<open>N\<close> is
  \<^verbatim>\<open>self.shape[1]\<close>. The lists are mutated in place in the source; the model
  returns their new contents.
\<close>

definition insertat2 ::
  "nat \<Rightarrow> int list \<Rightarrow> 'a::zero list \<Rightarrow> int \<Rightarrow> 'a pyval \<Rightarrow> error + (int list \<times> 'a list)" where
  "insertat2 N row dat j0 x0 =
     (let j = (if j0 < 0 then j0 + int N else j0) in
      if j < 0 \<or> j \<ge> int N then Inl IndexError
      else case x0 of
        Sequence \<Rightarrow> Inl ValueError
      | Unconvertible \<Rightarrow> Inl TypeError
      | Scalar x \<Rightarrow>
          (let pos = bisect_left row j in
           if x \<noteq> 0 then
             (if pos = length row then Inr (row @ [j], dat @ [x])
              else if row ! pos \<noteq> j then Inr (list_insert row pos j, list_insert dat pos x)
              else if pos < length dat then Inr (row, dat[pos := x])
              else Inl IndexError)
           else
             (if pos < length row \<and> row ! pos = j then
                (if pos < length dat then Inr (list_del row pos, list_del dat pos)
                 else Inl IndexError)
              else Inr (row, dat))))"

text \<open>
  The lookup at the end of \<^verbatim>\<open>_get1\<close>, on the two lists of one row. The source
  compares \<open>pos\<close> with \<^verbatim>\<open>len(data)\<close> and then reads \<^verbatim>\<open>row[pos]\<close> and
  \<^verbatim>\<open>data[pos]\<close>; a read past the end of a Python list raises IndexError.
\<close>

definition row_get :: "int list \<Rightarrow> 'a::zero list \<Rightarrow> int \<Rightarrow> error + 'a" where
  "row_get row dat j =
     (let pos = bisect_left row j in
      if pos \<noteq> length dat then
        (if pos < length row then
           (if row ! pos = j then
              (if pos < length dat then Inr (dat ! pos) else Inl IndexError)
            else Inr 0)
         else Inl IndexError)
      else Inr 0)"

text \<open>\<^verbatim>\<open>_get1(i, j)\<close>.\<close>

definition get1 :: "'a::zero lil_matrix \<Rightarrow> int \<Rightarrow> int \<Rightarrow> error + 'a" where
  "get1 A i0 j0 =
     (let M = int (fst (shape A)); N = int (snd (shape A));
          i = (if i0 < 0 then i0 + M else i0) in
      if i < 0 \<or> i \<ge> M then Inl IndexError
      else let j = (if j0 < 0 then j0 + N else j0) in
        if j < 0 \<or> j \<ge> N then Inl IndexError
        else ebind (np_index (length (rows A)) i) (\<lambda>kr.
             ebind (np_index (length (data A)) i) (\<lambda>kd.
               row_get (rows A ! kr) (data A ! kd) j)))"

text \<open>
  One step of the loops of \<^verbatim>\<open>__setitem__\<close>:
  \<^verbatim>\<open>self._insertat2(self.rows[ii], self.data[ii], jj, xx)\<close>. The two lists are
  fetched from the numpy arrays \<open>rows\<close> and \<open>data\<close> (negative \<open>ii\<close> wraps) and
  mutated in place, so the row they belong to changes and no other.
\<close>

definition set_at :: "'a::zero lil_matrix \<Rightarrow> int \<Rightarrow> int \<Rightarrow> 'a pyval \<Rightarrow> error + 'a lil_matrix" where
  "set_at A ii jj x =
     ebind (np_index (length (rows A)) ii) (\<lambda>kr.
     ebind (np_index (length (data A)) ii) (\<lambda>kd.
     ebind (insertat2 (snd (shape A)) (rows A ! kr) (data A ! kd) jj x) (\<lambda>(row', dat').
       Inr (A\<lparr>rows := (rows A)[kr := row'], data := (data A)[kd := dat']\<rparr>))))"


section \<open>Slices and index normalisation\<close>

text \<open>
  \<^verbatim>\<open>list(range(start, stop, step))\<close>: the ascending loop for a positive step, the
  descending one for a negative step; a zero step raises ValueError.
\<close>

function range_up :: "int \<Rightarrow> int \<Rightarrow> int \<Rightarrow> int list" where
  "range_up start stop step =
     (if 0 < step \<and> start < stop then start # range_up (start + step) stop step else [])"
  by pat_completeness auto
termination
  by (relation "measure (\<lambda>(start, stop, step). nat (stop - start))") auto

declare range_up.simps [simp del]

function range_down :: "int \<Rightarrow> int \<Rightarrow> int \<Rightarrow> int list" where
  "range_down start stop step =
     (if step < 0 \<and> stop < start then start # range_down (start + step) stop step else [])"
  by pat_completeness auto
termination
  by (relation "measure (\<lambda>(start, stop, step). nat (start - stop))") auto

declare range_down.simps [simp del]

definition py_range :: "int \<Rightarrow> int \<Rightarrow> int \<Rightarrow> error + int list" where
  "py_range start stop step =
     (if step = 0 then Inl ValueError
      else if 0 < step then Inr (range_up start stop step)
      else Inr (range_down start stop step))"

text \<open>A Python slice object: each of start, stop and step is an integer or None.\<close>

datatype slice = Slice (start: "int option") (stop: "int option") (step: "int option")

text \<open>
  \<^verbatim>\<open>_slicetoseq(j, shape)\<close>. \<^verbatim>\<open>j.step or 1\<close> replaces both None and 0 by 1.
\<close>

definition slicetoseq :: "slice \<Rightarrow> nat \<Rightarrow> error + int list" where
  "slicetoseq j E =
     (let stp = (case step j of None \<Rightarrow> 1 | Some s \<Rightarrow> if s = 0 then 1 else s);
          sta = (case start j of
                   Some a \<Rightarrow> if a < 0 then int E + a else a
                 | None \<Rightarrow> if 0 < stp then 0 else int E);
          sto = (case stop j of
                   Some b \<Rightarrow> if b < 0 then int E + b else b
                 | None \<Rightarrow> if 0 < stp then int E else - 1)
      in py_range sta sto stp)"

text \<open>
  One axis of an index: an integer, a slice, a sequence of integers, or a two-dimensional
  integer array (a list of rows of one length).
\<close>

datatype idx = IScalar int | ISlice slice | ISeq "int list" | IArr "int list list"

fun is_slice :: "idx \<Rightarrow> bool" where
  "is_slice (ISlice s) = True"
| "is_slice _ = False"

text \<open>The shape of a two-dimensional array held as a list of rows.\<close>

definition shape2 :: "'b list list \<Rightarrow> nat \<times> nat" where
  "shape2 a = (length a, case a of [] \<Rightarrow> 0 | r # _ \<Rightarrow> length r)"

text \<open>\<^verbatim>\<open>np.atleast_2d\<close> and \<^verbatim>\<open>np.atleast_1d\<close> on a non-slice axis.\<close>

fun atleast_2d :: "idx \<Rightarrow> int list list" where
  "atleast_2d (IScalar v) = [[v]]"
| "atleast_2d (ISeq xs) = [xs]"
| "atleast_2d (IArr a) = a"
| "atleast_2d (ISlice s) = []"

datatype ndarr = A1 "int list" | A2 "int list list"

fun atleast_1d :: "idx \<Rightarrow> ndarr" where
  "atleast_1d (IScalar v) = A1 [v]"
| "atleast_1d (ISeq xs) = A1 xs"
| "atleast_1d (IArr a) = A2 a"
| "atleast_1d (ISlice s) = A1 []"

fun ravel1 :: "ndarr \<Rightarrow> int list" where
  "ravel1 (A1 xs) = xs"
| "ravel1 (A2 a) = concat a"

text \<open>
  \<^verbatim>\<open>v * np.ones(shape)\<close>, \<^verbatim>\<open>np.outer(i, np.ones(n))\<close> and
  \<^verbatim>\<open>np.vstack([a] * n)\<close>; stacking an empty list of arrays raises ValueError.
\<close>

definition np_full :: "nat \<times> nat \<Rightarrow> 'b \<Rightarrow> 'b list list" where
  "np_full s v = replicate (fst s) (replicate (snd s) v)"

definition outer_ones :: "int list \<Rightarrow> nat \<Rightarrow> int list list" where
  "outer_ones i n = map (\<lambda>v. replicate n v) i"

definition vstack_rep :: "'b list list \<Rightarrow> nat \<Rightarrow> error + 'b list list" where
  "vstack_rep a n = (if n = 0 then Inl ValueError else Inr (concat (replicate n a)))"

text \<open>
  ``Make i and j into same shape'': the block that \<^verbatim>\<open>__getitem__\<close> and
  \<^verbatim>\<open>__setitem__\<close> both run on \<^verbatim>\<open>np.atleast_2d(i)\<close> and \<^verbatim>\<open>np.atleast_2d(j)\<close>
  when neither axis is a slice.
\<close>

definition broadcast_ij ::
  "int list list \<Rightarrow> int list list \<Rightarrow> error + (int list list \<times> int list list)" where
  "broadcast_ij i j =
     (if shape2 j = shape2 i then Inr (i, j)
      else if shape2 i = (1, 1) then Inr (np_full (shape2 j) (i ! 0 ! 0), j)
      else if shape2 j = (1, 1) then Inr (i, np_full (shape2 i) (j ! 0 ! 0))
      else if snd (shape2 i) = snd (shape2 j) then
        (if fst (shape2 i) = 1
           then ebind (vstack_rep i (fst (shape2 j))) (\<lambda>i'. Inr (i', j))
         else if fst (shape2 j) = 1
           then ebind (vstack_rep j (fst (shape2 i))) (\<lambda>j'. Inr (i, j'))
         else Inl ValueError)
      else Inl ValueError)"

text \<open>
  One axis in the slice branch: a slice is expanded by \<^verbatim>\<open>_slicetoseq\<close>, and an empty
  expansion (\<^verbatim>\<open>if not i: return\<close>) is the result \<open>None\<close>; then
  \<^verbatim>\<open>np.atleast_1d\<close>.
\<close>

definition slice_axis :: "idx \<Rightarrow> nat \<Rightarrow> error + ndarr option" where
  "slice_axis a E =
     (case a of
        ISlice s \<Rightarrow> ebind (slicetoseq s E) (\<lambda>xs. if xs = [] then Inr None else Inr (Some (A1 xs)))
      | _ \<Rightarrow> Inr (Some (atleast_1d a)))"

section \<open>Reading: \<^verbatim>\<open>__getitem__\<close>\<close>

text \<open>
  Modelled from the spec: the constructor \<^verbatim>\<open>lil_matrix(D)\<close> on a dense nested list
  goes through \<^verbatim>\<open>csr_matrix(D).tolil()\<close>, which is not in \<^verbatim>\<open>lil.py\<close>. The
  spec's data model is followed: the matrix has the shape of \<open>D\<close> and row \<open>i\<close> stores,
  in increasing column order, the columns and values of the nonzero entries of \<open>D ! i\<close>.
\<close>

definition lil_from_dense :: "'a::zero list list \<Rightarrow> 'a lil_matrix" where
  "lil_from_dense D =
     \<lparr>shape = shape2 D,
      rows = map (\<lambda>r. map int (filter (\<lambda>c. r ! c \<noteq> 0) [0..<length r])) D,
      data = map (filter (\<lambda>v. v \<noteq> 0)) D\<rparr>"

fun map_err :: "('b \<Rightarrow> error + 'c) \<Rightarrow> 'b list \<Rightarrow> error + 'c list" where
  "map_err f [] = Inr []"
| "map_err f (x # xs) = ebind (f x) (\<lambda>y. ebind (map_err f xs) (\<lambda>ys. Inr (y # ys)))"

text \<open>
  The index normalisation of \<^verbatim>\<open>__getitem__\<close> for an index that is a pair
  \<open>(i, j)\<close>: \<open>None\<close> when a slice expanded to nothing, otherwise the flag
  \<^verbatim>\<open>slicemat\<close> and the two coordinate arrays.
\<close>

definition getitem_norm ::
  "nat \<times> nat \<Rightarrow> idx \<Rightarrow> idx \<Rightarrow> error + (bool \<times> int list list \<times> int list list) option" where
  "getitem_norm s i j =
     (if is_slice i \<or> is_slice j then
        ebind (slice_axis i (fst s)) (\<lambda>i1. case i1 of None \<Rightarrow> Inr None | Some ia \<Rightarrow>
        ebind (slice_axis j (snd s)) (\<lambda>j1. case j1 of None \<Rightarrow> Inr None | Some ja \<Rightarrow>
          (case ia of A2 a \<Rightarrow> Inl IndexError | A1 iv \<Rightarrow>
            (case ja of A2 b \<Rightarrow> Inl IndexError | A1 jv \<Rightarrow>
               ebind (vstack_rep [jv] (length iv)) (\<lambda>J.
                 Inr (Some (True, outer_ones iv (length jv), J)))))))
      else
        ebind (broadcast_ij (atleast_2d i) (atleast_2d j)) (\<lambda>(I, J). Inr (Some (False, I, J))))"

text \<open>What \<^verbatim>\<open>__getitem__\<close> returns: a scalar, a new matrix, or None.\<close>

datatype 'a getres = GValue 'a | GMatrix "'a lil_matrix" | GNone

definition getitem :: "'a::zero lil_matrix \<Rightarrow> idx \<Rightarrow> idx \<Rightarrow> error + 'a getres" where
  "getitem A i j =
     ebind (getitem_norm (shape A) i j) (\<lambda>r. case r of
        None \<Rightarrow> Inr GNone
      | Some (slicemat, I, J) \<Rightarrow>
          if shape2 I = shape2 J \<and> shape2 I = (1, 1) \<and> \<not> slicemat
          then ebind (get1 A (I ! 0 ! 0) (J ! 0 ! 0)) (\<lambda>v. Inr (GValue v))
          else ebind (map_err (\<lambda>ii. map_err (\<lambda>jj. get1 A (I ! ii ! jj) (J ! ii ! jj))
                                     [0..<snd (shape2 I)])
                        [0..<fst (shape2 I)])
                 (\<lambda>D. Inr (GMatrix (lil_from_dense D))))"

text \<open>\<open>get(i, j)\<close> of the spec is the read \<^verbatim>\<open>A[i, j]\<close> with two integers.\<close>

definition get :: "'a::zero lil_matrix \<Rightarrow> int \<Rightarrow> int \<Rightarrow> error + 'a getres" where
  "get A i j = getitem A (IScalar i) (IScalar j)"

section \<open>Writing: \<^verbatim>\<open>__setitem__\<close>\<close>

text \<open>
  \<^verbatim>\<open>toarray\<close>: a zero array of the matrix's shape, in which row \<open>i\<close> receives
  \<^verbatim>\<open>d[i, j] = self.data[i][pos]\<close> for each stored column.
\<close>

fun fill_row :: "'a list \<Rightarrow> int list \<Rightarrow> 'a list \<Rightarrow> error + 'a list" where
  "fill_row d [] dat = Inr d"
| "fill_row d (j # js) [] = Inl IndexError"
| "fill_row d (j # js) (v # vs) = ebind (np_index (length d) j) (\<lambda>k. fill_row (d[k := v]) js vs)"

definition toarray :: "'a::zero lil_matrix \<Rightarrow> error + 'a list list" where
  "toarray A =
     ebind (map_err (\<lambda>i.
              if i < fst (shape A)
              then ebind (np_index (length (data A)) (int i)) (\<lambda>kd.
                     fill_row (replicate (snd (shape A)) 0) (rows A ! i) (data A ! kd))
              else Inl IndexError)
            [0..<length (rows A)])
       (\<lambda>ds. Inr (ds @ replicate (fst (shape A) - length (rows A)) (replicate (snd (shape A)) 0)))"

text \<open>
  The right-hand side of an assignment: a scalar, a sequence, a two-dimensional array, or
  a sparse matrix (here another \<^verbatim>\<open>lil_matrix\<close>). The dense forms are already of
  the element type, as \<^verbatim>\<open>np.asarray(x, dtype=self.dtype)\<close> leaves them.
\<close>

datatype 'a rhs = RScalar 'a | RSeq "'a list" | RArr "'a list list" | RSparse "'a lil_matrix"

fun is_sparse :: "'a rhs \<Rightarrow> bool" where
  "is_sparse (RSparse X) = True"
| "is_sparse _ = False"

fun rhs_2d :: "'a rhs \<Rightarrow> 'a list list" where
  "rhs_2d (RScalar v) = [[v]]"
| "rhs_2d (RSeq xs) = [xs]"
| "rhs_2d (RArr a) = a"
| "rhs_2d (RSparse X) = []"

text \<open>
  The index normalisation of \<^verbatim>\<open>__setitem__\<close>: as for reading, except that the
  axes of the slice branch are flattened by \<^verbatim>\<open>ravel()\<close> and there is no check of
  their dimension. \<open>None\<close>: a slice expanded to nothing, the assignment returns at once.
\<close>

definition setitem_norm ::
  "nat \<times> nat \<Rightarrow> idx \<Rightarrow> idx \<Rightarrow> error + (int list list \<times> int list list) option" where
  "setitem_norm s i j =
     (if is_slice i \<or> is_slice j then
        ebind (slice_axis i (fst s)) (\<lambda>i1. case i1 of None \<Rightarrow> Inr None | Some ia \<Rightarrow>
        ebind (slice_axis j (snd s)) (\<lambda>j1. case j1 of None \<Rightarrow> Inr None | Some ja \<Rightarrow>
          ebind (vstack_rep [ravel1 ja] (length (ravel1 ia))) (\<lambda>J.
            Inr (Some (outer_ones (ravel1 ia) (length (ravel1 ja)), J)))))
      else
        ebind (broadcast_ij (atleast_2d i) (atleast_2d j)) (\<lambda>(I, J). Inr (Some (I, J))))"

text \<open>
  The loops \<^verbatim>\<open>for ii, jj, xx in zip(...): self._insertat2(...)\<close>. An exception in
  the middle of a loop ends the call; the model returns the exception then, and the
  matrix only when the loop completes.
\<close>

fun set_loop :: "'a::zero lil_matrix \<Rightarrow> (int \<times> int \<times> 'a) list \<Rightarrow> error + 'a lil_matrix" where
  "set_loop A [] = Inr A"
| "set_loop A ((ii, jj, xx) # ps) = ebind (set_at A ii jj (Scalar xx)) (\<lambda>A'. set_loop A' ps)"

text \<open>
  The loop of the branch for a sparse right-hand side of shape \<open>(1, 1)\<close>:
  \<^verbatim>\<open>for ii, jj in zip(i.ravel(), j.ravel()):
      self._insertat2(self.rows[ii], self.data[ii], j[jj], x[0, 0])\<close>.
  The column argument is \<^verbatim>\<open>j[jj]\<close>, row \<open>jj\<close> of the coordinate array \<open>j\<close>: a
  one-dimensional array that is a view of that row. In \<^verbatim>\<open>_insertat2\<close> the tests
  \<^verbatim>\<open>if j < 0\<close> and \<^verbatim>\<open>if j < 0 or j >= self.shape[1]\<close> take the truth value of
  an array: with more than one element numpy raises ValueError; with exactly one element
  the array behaves as that element (which the model then stores). The loop runs only when
  \<open>j\<close> has a column, so an empty row is never passed; the model gives ValueError there as
  well.

  For a one-element row with a negative element, \<^verbatim>\<open>j += self.shape[1]\<close> adds in
  place: the row of the coordinate array itself changes. \<^verbatim>\<open>j.ravel()\<close> is a view of the
  same array (the coordinate arrays built by the normalisation are contiguous) and
  \<open>zip\<close> reads it as the loop advances, so the pair at position \<open>p\<close> and the row
  \<^verbatim>\<open>j[jj]\<close> are read from the array as the earlier turns left it.
\<close>

definition insertat2_arr ::
  "nat \<Rightarrow> int list \<Rightarrow> 'a::zero list \<Rightarrow> int list \<Rightarrow> 'a pyval \<Rightarrow> error + (int list \<times> 'a list)" where
  "insertat2_arr N row dat jrow x =
     (case jrow of [v] \<Rightarrow> insertat2 N row dat v x | _ \<Rightarrow> Inl ValueError)"

definition add_in_place :: "int list list \<Rightarrow> nat \<Rightarrow> nat \<Rightarrow> int list list" where
  "add_in_place J kj N =
     (case J ! kj of [v] \<Rightarrow> if v < 0 then J[kj := [v + int N]] else J | _ \<Rightarrow> J)"

fun set_loop_sparse11 ::
  "'a::zero lil_matrix \<Rightarrow> int list list \<Rightarrow> 'a lil_matrix \<Rightarrow> nat \<Rightarrow> int list \<Rightarrow> error + 'a lil_matrix" where
  "set_loop_sparse11 A J X p [] = Inr A"
| "set_loop_sparse11 A J X p (ii # iis) =
     (if p < length (concat J) then
        ebind (np_index (length (rows A)) ii) (\<lambda>kr.
        ebind (np_index (length (data A)) ii) (\<lambda>kd.
        ebind (np_index (length J) (concat J ! p)) (\<lambda>kj.
        ebind (get1 X 0 0) (\<lambda>x00.
        ebind (insertat2_arr (snd (shape A)) (rows A ! kr) (data A ! kd) (J ! kj) (Scalar x00))
          (\<lambda>(row', dat').
             set_loop_sparse11 (A\<lparr>rows := (rows A)[kr := row'], data := (data A)[kd := dat']\<rparr>)
               (add_in_place J kj (snd (shape A))) X (Suc p) iis)))))
      else Inr A)"

text \<open>
  \<^verbatim>\<open>__setitem__\<close> for an index that is a pair \<open>(i, j)\<close>.

  The shortcut for \<^verbatim>\<open>A[:, :] = x\<close> with sparse \<open>x\<close> replaces \<open>rows\<close> and
  \<open>data\<close> by those of \<^verbatim>\<open>lil_matrix(x, dtype=self.dtype)\<close> and leaves the shape
  alone; which lists are shared afterwards is the subject of the store model below, here
  the contents are taken over.

  The third sparse branch evaluates \<^verbatim>\<open>np.concatenat\<close>, a name numpy does not have:
  AttributeError.
\<close>

definition setitem :: "'a::zero lil_matrix \<Rightarrow> idx \<Rightarrow> idx \<Rightarrow> 'a rhs \<Rightarrow> error + 'a lil_matrix" where
  "setitem A i j x =
     (if is_sparse x \<and> i = ISlice (Slice None None None) \<and> j = ISlice (Slice None None None)
      then (case x of RSparse X \<Rightarrow> Inr (A\<lparr>rows := rows X, data := data X\<rparr>) | _ \<Rightarrow> Inr A)
      else
        ebind (setitem_norm (shape A) i j) (\<lambda>r. case r of
          None \<Rightarrow> Inr A
        | Some (I, J) \<Rightarrow>
           (case x of
              RSparse X \<Rightarrow>
                if shape X = (1, 1) then set_loop_sparse11 A J X 0 (concat I)
                else if shape X = shape2 I then
                  ebind (toarray X) (\<lambda>d.
                    set_loop A (zip (concat I) (zip (concat J) (concat d))))
                else if snd (shape X) = snd (shape2 I) \<and> fst (shape X) = 1 then Inl AttributeError
                else Inl ValueError
            | _ \<Rightarrow>
                if shape2 (rhs_2d x) = (1, 1) then
                  set_loop A (map (\<lambda>(ii, jj). (ii, jj, rhs_2d x ! 0 ! 0)) (zip (concat I) (concat J)))
                else
                  ebind (if shape2 I = shape2 (rhs_2d x) then Inr (rhs_2d x)
                         else if snd (shape2 (rhs_2d x)) = snd (shape2 I) \<and> fst (shape2 (rhs_2d x)) = 1
                           then vstack_rep (rhs_2d x) (fst (shape2 I))
                         else Inl ValueError)
                    (\<lambda>xa. set_loop A (zip (concat I) (zip (concat J) (concat xa)))))))"

text \<open>\<open>set(i, j, x)\<close> of the spec is the assignment \<^verbatim>\<open>A[i, j] = x\<close> with two
  integers and a scalar.\<close>

definition set_elem :: "'a::zero lil_matrix \<Rightarrow> int \<Rightarrow> int \<Rightarrow> 'a \<Rightarrow> error + 'a lil_matrix" where
  "set_elem A i j x = setitem A (IScalar i) (IScalar j) (RScalar x)"

text \<open>A sequence of \<open>set\<close> calls, stopping at the first exception.\<close>

fun set_seq :: "'a::zero lil_matrix \<Rightarrow> (int \<times> int \<times> 'a) list \<Rightarrow> error + 'a lil_matrix" where
  "set_seq A [] = Inr A"
| "set_seq A ((i, j, x) # ops) = ebind (set_elem A i j x) (\<lambda>A'. set_seq A' ops)"

section \<open>Scalar multiplication, copy, reshape, conversion\<close>

text \<open>\<^verbatim>\<open>copy\<close>: a new matrix with deep copies of \<open>rows\<close> and \<open>data\<close>.\<close>

definition copy_lil :: "'a lil_matrix \<Rightarrow> 'a lil_matrix" where
  "copy_lil A = (lil_empty (shape A))\<lparr>data := data A, rows := rows A\<rparr>"

text \<open>\<^verbatim>\<open>_mul_scalar\<close>.\<close>

definition mul_scalar :: "'a::{zero,times} lil_matrix \<Rightarrow> 'a \<Rightarrow> 'a lil_matrix" where
  "mul_scalar A other =
     (if other = 0 then lil_empty (shape A)
      else (copy_lil A)\<lparr>data := map (map (\<lambda>val. val * other)) (data (copy_lil A))\<rparr>)"

text \<open>
  \<^verbatim>\<open>np.unravel_index(k, (M', N'))\<close>: ValueError unless \<open>0 \<le> k < M' * N'\<close>.
\<close>

definition unravel_index :: "int \<Rightarrow> nat \<times> nat \<Rightarrow> error + (int \<times> int)" where
  "unravel_index k s =
     (if 0 \<le> k \<and> k < int (fst s * snd s) then Inr (k div int (snd s), k mod int (snd s))
      else Inl ValueError)"

text \<open>
  \<^verbatim>\<open>reshape\<close>: for every row \<open>i\<close> and every stored column \<open>j\<close> of it,
  \<^verbatim>\<open>new[np.unravel_index(i*j_max + j, shape)] = self[i, j]\<close>. The source makes no
  other check.
\<close>

fun reshape_loop ::
  "'a::zero lil_matrix \<Rightarrow> 'a lil_matrix \<Rightarrow> nat \<times> nat \<Rightarrow> (nat \<times> int) list \<Rightarrow> error + 'a lil_matrix" where
  "reshape_loop A new s [] = Inr new"
| "reshape_loop A new s ((i, j) # ps) =
     ebind (unravel_index (int i * int (snd (shape A)) + j) s) (\<lambda>(new_r, new_c).
     ebind (get A (int i) j) (\<lambda>r. case r of
        GValue v \<Rightarrow> ebind (set_elem new new_r new_c v) (\<lambda>new'. reshape_loop A new' s ps)
      | _ \<Rightarrow> Inl TypeError))"

definition stored_coords :: "'a lil_matrix \<Rightarrow> (nat \<times> int) list" where
  "stored_coords A = concat (map (\<lambda>i. map (\<lambda>j. (i, j)) (rows A ! i)) [0..<length (rows A)])"

definition reshape :: "'a::zero lil_matrix \<Rightarrow> nat \<times> nat \<Rightarrow> error + 'a lil_matrix" where
  "reshape A s = reshape_loop A (lil_empty s) s (stored_coords A)"

text \<open>
  Conversion of a Python integer to a signed machine integer of \<open>w\<close> bits, as
  \<^verbatim>\<open>np.asarray(..., dtype=np.intc)\<close> does for a C int (32 bits): a value outside the
  range is reduced modulo \<open>2 ^ w\<close> into it (numpy releases that check the range raise
  OverflowError instead; the arrays then agree with the model on every value in range).
  \<^verbatim>\<open>np.cumsum\<close> of an array of C ints accumulates in the platform integer, taken to
  have 64 bits.
\<close>

definition wrap_signed :: "nat \<Rightarrow> int \<Rightarrow> int" where
  "wrap_signed w v = (v + 2 ^ (w - 1)) mod 2 ^ w - 2 ^ (w - 1)"

definition intc :: "int \<Rightarrow> int" where
  "intc v = wrap_signed 32 v"

definition intp :: "int \<Rightarrow> int" where
  "intp v = wrap_signed 64 v"

fun cumsum :: "int \<Rightarrow> int list \<Rightarrow> int list" where
  "cumsum acc [] = []"
| "cumsum acc (x # xs) = intp (acc + x) # cumsum (intp (acc + x)) xs"

text \<open>
  \<^verbatim>\<open>tocsr\<close>: the three arrays handed to \<^verbatim>\<open>csr_matrix\<close>, with the shape.
  \<open>indptr\<close> is 0 followed by the running sums of the row lengths, each length converted
  to \<^verbatim>\<open>np.intc\<close> first; \<open>indices\<close> is the concatenation of the column lists converted
  to \<^verbatim>\<open>np.intc\<close>; \<open>data\<close> is the concatenation of the value lists.
\<close>

record 'a csr_args =
  csr_data :: "'a list"
  csr_indices :: "int list"
  csr_indptr :: "int list"
  csr_shape :: "nat \<times> nat"

definition tocsr :: "'a lil_matrix \<Rightarrow> 'a csr_args" where
  "tocsr A =
     \<lparr>csr_data = concat (data A),
      csr_indices = map intc (concat (rows A)),
      csr_indptr = 0 # cumsum 0 (map (\<lambda>x. intc (int (length x))) (rows A)),
      csr_shape = shape A\<rparr>"

section \<open>The invariant of the row store\<close>

text \<open>
  A row is well formed when its column list is strictly increasing (so without
  duplicates), its value list has the same length, and no stored value is zero.
\<close>

definition row_ok :: "int list \<Rightarrow> 'a::zero list \<Rightarrow> bool" where
  "row_ok row dat \<longleftrightarrow> sorted_wrt (<) row \<and> length dat = length row \<and> 0 \<notin> set dat"

definition lil_inv :: "'a::zero lil_matrix \<Rightarrow> bool" where
  "lil_inv A \<longleftrightarrow> length (rows A) = fst (shape A) \<and> list_all2 row_ok (rows A) (data A)"

text \<open>Every stored column index lies inside the matrix.\<close>

definition cols_in_range :: "'a lil_matrix \<Rightarrow> bool" where
  "cols_in_range A \<longleftrightarrow> (\<forall>row\<in>set (rows A). \<forall>j\<in>set row. 0 \<le> j \<and> j < int (snd (shape A)))"

text \<open>The value a row holds at column \<open>j\<close>: the stored one, or zero.\<close>

definition row_val :: "int list \<Rightarrow> 'a::zero list \<Rightarrow> int \<Rightarrow> 'a" where
  "row_val row dat j = (case map_of (zip row dat) j of None \<Rightarrow> 0 | Some v \<Rightarrow> v)"

text \<open>Negative indices count from the end of an axis of extent \<open>E\<close>.\<close>

definition wrap :: "nat \<Rightarrow> int \<Rightarrow> int" where
  "wrap E i = (if i < 0 then i + int E else i)"

definition valid :: "nat \<Rightarrow> int \<Rightarrow> bool" where
  "valid E i \<longleftrightarrow> 0 \<le> wrap E i \<and> wrap E i < int E"

text \<open>The value the matrix holds at row \<open>i\<close> and column \<open>j\<close>, read off the two lists.\<close>

definition entry :: "'a::zero lil_matrix \<Rightarrow> nat \<Rightarrow> int \<Rightarrow> 'a" where
  "entry A i j = row_val (rows A ! i) (data A ! i) j"

text \<open>
  The row-major flat coordinate of \<open>(i, j)\<close>, and the condition under which every stored
  entry's flat coordinate lies inside a new shape \<open>s\<close>.
\<close>

definition flat_index :: "'a lil_matrix \<Rightarrow> nat \<Rightarrow> int \<Rightarrow> int" where
  "flat_index A i j = int i * int (snd (shape A)) + j"

definition fits :: "'a lil_matrix \<Rightarrow> nat \<times> nat \<Rightarrow> bool" where
  "fits A s \<longleftrightarrow>
     (\<forall>i < length (rows A). \<forall>j\<in>set (rows A ! i). flat_index A i j < int (fst s * snd s))"

text \<open>
  The matrices whose conversion loses nothing: every column index and every row length is
  in the range of a C int, and the number of stored entries is in the range of the platform
  integer.
\<close>

definition fits_intc :: "'a lil_matrix \<Rightarrow> bool" where
  "fits_intc A \<longleftrightarrow>
     (\<forall>row\<in>set (rows A). int (length row) < 2 ^ 31 \<and> (\<forall>j\<in>set row. - (2 ^ 31) \<le> j \<and> j < 2 ^ 31)) \<and>
     int (sum_list (map length (rows A))) < 2 ^ 63"

section \<open>The store: which lists two matrices share\<close>

text \<open>
  \<^verbatim>\<open>self.rows\<close> and \<^verbatim>\<open>self.data\<close> are numpy object arrays whose slots refer to
  Python lists, and \<^verbatim>\<open>_insertat2\<close> mutates those lists in place. To say which matrices
  see a mutation, lists and arrays live in a store and are named by their addresses (their
  positions in the store; allocation appends). A matrix object holds its shape and the
  addresses of its two arrays.
\<close>

record 'a heap =
  ilists :: "int list list"
  vlists :: "'a list list"
  arrays :: "nat list list"

record lil_obj =
  o_shape :: "nat \<times> nat"
  o_rows :: nat
  o_data :: nat

text \<open>The contents of a matrix object in a store, as a matrix value.\<close>

definition view :: "'a heap \<Rightarrow> lil_obj \<Rightarrow> 'a lil_matrix" where
  "view h A =
     \<lparr>shape = o_shape A,
      rows = map ((!) (ilists h)) (arrays h ! o_rows A),
      data = map ((!) (vlists h)) (arrays h ! o_data A)\<rparr>"

text \<open>\<^verbatim>\<open>lil_matrix((M, N))\<close>: two new arrays of \<open>M\<close> new empty lists each.\<close>

definition h_lil_empty :: "'a heap \<Rightarrow> nat \<times> nat \<Rightarrow> 'a heap \<times> lil_obj" where
  "h_lil_empty h s =
     (h\<lparr>ilists := ilists h @ replicate (fst s) [],
        vlists := vlists h @ replicate (fst s) [],
        arrays := arrays h @ [[length (ilists h)..<length (ilists h) + fst s],
                              [length (vlists h)..<length (vlists h) + fst s]]\<rparr>,
      \<lparr>o_shape = s, o_rows = length (arrays h), o_data = Suc (length (arrays h))\<rparr>)"

text \<open>
  \<^verbatim>\<open>deepcopy\<close> of an array of lists: a new array whose slots refer to new lists with the
  contents of the old ones (one new list per slot).
\<close>

definition h_deepcopy_rows :: "'a heap \<Rightarrow> nat \<Rightarrow> 'a heap \<times> nat" where
  "h_deepcopy_rows h a =
     (h\<lparr>ilists := ilists h @ map ((!) (ilists h)) (arrays h ! a),
        arrays := arrays h @ [[length (ilists h)..<length (ilists h) + length (arrays h ! a)]]\<rparr>,
      length (arrays h))"

definition h_deepcopy_data :: "'a heap \<Rightarrow> nat \<Rightarrow> 'a heap \<times> nat" where
  "h_deepcopy_data h a =
     (h\<lparr>vlists := vlists h @ map ((!) (vlists h)) (arrays h ! a),
        arrays := arrays h @ [[length (vlists h)..<length (vlists h) + length (arrays h ! a)]]\<rparr>,
      length (arrays h))"

text \<open>\<^verbatim>\<open>copy\<close>: a new matrix, then \<open>data\<close> and \<open>rows\<close> replaced by deep copies.\<close>

definition h_copy :: "'a heap \<Rightarrow> lil_obj \<Rightarrow> 'a heap \<times> lil_obj" where
  "h_copy h A =
     (let (h1, new) = h_lil_empty h (o_shape A);
          (h2, d) = h_deepcopy_data h1 (o_data A);
          (h3, r) = h_deepcopy_rows h2 (o_rows A)
      in (h3, new\<lparr>o_data := d, o_rows := r\<rparr>))"

text \<open>\<^verbatim>\<open>tolil(copy)\<close>: the matrix itself unless a copy is asked for.\<close>

definition h_tolil :: "'a heap \<Rightarrow> lil_obj \<Rightarrow> bool \<Rightarrow> 'a heap \<times> lil_obj" where
  "h_tolil h A cp = (if cp then h_copy h A else (h, A))"

text \<open>
  Modelled from the spec: \<^verbatim>\<open>astype\<close> belongs to the base class and is missing from
  \<^verbatim>\<open>lil.py\<close>. The spec has a sparse source converted by way of the compressed-row
  format, ``rows/values cloned, never aliased'': the conversion rebuilds the matrix in new
  lists and arrays. The model has one element type, so the contents are those of the
  argument.
\<close>

definition astype :: "'a heap \<Rightarrow> lil_obj \<Rightarrow> 'a heap \<times> lil_obj" where
  "astype h A = h_copy h A"

text \<open>
  \<^verbatim>\<open>lil_matrix(arg1, dtype=..., copy=...)\<close> for \<open>arg1\<close> a \<^verbatim>\<open>lil_matrix\<close> (lines 89
  to 101): \<^verbatim>\<open>arg1.copy()\<close> when a copy is asked for, \<^verbatim>\<open>arg1.tolil()\<close> otherwise;
  then \<^verbatim>\<open>astype\<close> when a \<open>dtype\<close> was given (the flag \<open>with_dtype\<close>); the new matrix
  takes the shape and the two arrays of the result.
\<close>

definition h_init_sparse :: "'a heap \<Rightarrow> lil_obj \<Rightarrow> bool \<Rightarrow> bool \<Rightarrow> 'a heap \<times> lil_obj" where
  "h_init_sparse h arg1 cp with_dtype =
     (let (h1, A) = (if cp then h_copy h arg1 else h_tolil h arg1 False);
          (h2, A') = (if with_dtype then astype h1 A else (h1, A))
      in (h2, \<lparr>o_shape = o_shape A', o_rows = o_rows A', o_data = o_data A'\<rparr>))"

text \<open>
  The shortcut of \<^verbatim>\<open>__setitem__\<close> for \<^verbatim>\<open>self[:, :] = x\<close> with sparse \<open>x\<close> (lines 334
  to 340): \<^verbatim>\<open>x = lil_matrix(x, dtype=self.dtype)\<close>, then \<open>self\<close> takes the arrays of
  that matrix.
\<close>

definition h_setitem_full :: "'a heap \<Rightarrow> lil_obj \<Rightarrow> lil_obj \<Rightarrow> 'a heap \<times> lil_obj" where
  "h_setitem_full h self x =
     (let (h1, X) = h_init_sparse h x False True
      in (h1, self\<lparr>o_rows := o_rows X, o_data := o_data X\<rparr>))"

text \<open>
  \<open>set(i, j, x)\<close> in the store: \<^verbatim>\<open>self._insertat2(self.rows[ii], self.data[ii], jj, x)\<close>
  fetches the two lists through the arrays and writes their new contents back to the same
  addresses.
\<close>

definition h_set :: "'a::zero heap \<Rightarrow> lil_obj \<Rightarrow> int \<Rightarrow> int \<Rightarrow> 'a \<Rightarrow> error + 'a heap" where
  "h_set h A ii jj x =
     ebind (np_index (length (arrays h ! o_rows A)) ii) (\<lambda>kr.
     ebind (np_index (length (arrays h ! o_data A)) ii) (\<lambda>kd.
     ebind (insertat2 (snd (o_shape A))
              (ilists h ! (arrays h ! o_rows A ! kr)) (vlists h ! (arrays h ! o_data A ! kd))
              jj (Scalar x))
       (\<lambda>(row', dat').
          Inr (h\<lparr>ilists := (ilists h)[arrays h ! o_rows A ! kr := row'],
                 vlists := (vlists h)[arrays h ! o_data A ! kd := dat']\<rparr>))))"

fun h_set_seq :: "'a::zero heap \<Rightarrow> lil_obj \<Rightarrow> (int \<times> int \<times> 'a) list \<Rightarrow> error + 'a heap" where
  "h_set_seq h A [] = Inr h"
| "h_set_seq h A ((i, j, x) # ops) = ebind (h_set h A i j x) (\<lambda>h'. h_set_seq h' A ops)"

text \<open>
  A matrix object is in the store when its arrays and the lists in their slots are; two
  matrix objects are separate when no list is in a slot of both.
\<close>

definition obj_ok :: "'a heap \<Rightarrow> lil_obj \<Rightarrow> bool" where
  "obj_ok h A \<longleftrightarrow>
     o_rows A < length (arrays h) \<and> o_data A < length (arrays h) \<and>
     list_all (\<lambda>a. a < length (ilists h)) (arrays h ! o_rows A) \<and>
     list_all (\<lambda>a. a < length (vlists h)) (arrays h ! o_data A)"

definition separate :: "'a heap \<Rightarrow> lil_obj \<Rightarrow> lil_obj \<Rightarrow> bool" where
  "separate h A B \<longleftrightarrow>
     set (arrays h ! o_rows A) \<inter> set (arrays h ! o_rows B) = {} \<and>
     set (arrays h ! o_data A) \<inter> set (arrays h ! o_data B) = {}"

section \<open>Properties of the binary search\<close>

lemma bisect_loop_stop: "\<not> lo < hi \<Longrightarrow> bisect_loop a x lo hi = lo"
  by (subst bisect_loop.simps) simp

lemma bisect_loop_right:
  "lo < hi \<Longrightarrow> a ! ((lo + hi) div 2) < x \<Longrightarrow>
   bisect_loop a x lo hi = bisect_loop a x ((lo + hi) div 2 + 1) hi"
  by (subst bisect_loop.simps) simp

lemma bisect_loop_left:
  "lo < hi \<Longrightarrow> \<not> a ! ((lo + hi) div 2) < x \<Longrightarrow>
   bisect_loop a x lo hi = bisect_loop a x lo ((lo + hi) div 2)"
  by (subst bisect_loop.simps) simp

lemma bisect_loop_bounds:
  "lo \<le> hi \<Longrightarrow> lo \<le> bisect_loop a x lo hi \<and> bisect_loop a x lo hi \<le> hi"
proof (induction a x lo hi rule: bisect_loop.induct)
  case (1 a x lo hi)
  show ?case
  proof (cases "lo < hi")
    case False
    with "1.prems" show ?thesis by (simp add: bisect_loop_stop)
  next
    case lt: True
    show ?thesis
    proof (cases "a ! ((lo + hi) div 2) < x")
      case True
      with lt "1.IH"(1) have "(lo + hi) div 2 + 1 \<le> bisect_loop a x ((lo + hi) div 2 + 1) hi
          \<and> bisect_loop a x ((lo + hi) div 2 + 1) hi \<le> hi"
        by simp
      moreover have "lo \<le> (lo + hi) div 2" using lt by simp
      ultimately show ?thesis using lt True by (simp add: bisect_loop_right)
    next
      case False
      with lt "1.IH"(2) have "lo \<le> bisect_loop a x lo ((lo + hi) div 2)
          \<and> bisect_loop a x lo ((lo + hi) div 2) \<le> (lo + hi) div 2"
        by simp
      moreover have "(lo + hi) div 2 \<le> hi" using lt by simp
      ultimately show ?thesis using lt False by (simp add: bisect_loop_left)
    qed
  qed
qed

lemma bisect_left_le: "bisect_left a x \<le> length a"
  using bisect_loop_bounds [of 0 "length a" a x] by (simp add: bisect_left_def)

text \<open>On a sorted list the loop keeps: everything left of \<open>lo\<close> is smaller than \<open>x\<close>,
  everything from \<open>hi\<close> on is at least \<open>x\<close>.\<close>

lemma bisect_loop_sorted:
  "sorted a \<Longrightarrow> lo \<le> hi \<Longrightarrow> hi \<le> length a \<Longrightarrow>
   (\<forall>k<lo. a ! k < x) \<Longrightarrow> (\<forall>k. hi \<le> k \<and> k < length a \<longrightarrow> x \<le> a ! k) \<Longrightarrow>
   (\<forall>k<bisect_loop a x lo hi. a ! k < x) \<and>
   (\<forall>k. bisect_loop a x lo hi \<le> k \<and> k < length a \<longrightarrow> x \<le> a ! k)"
proof (induction a x lo hi rule: bisect_loop.induct)
  case (1 a x lo hi)
  let ?mid = "(lo + hi) div 2"
  show ?case
  proof (cases "lo < hi")
    case False
    with "1.prems" have "lo = hi" by simp
    with "1.prems" show ?thesis by (simp add: bisect_loop_stop)
  next
    case lt: True
    then have mid: "lo \<le> ?mid" "?mid < hi" by auto
    show ?thesis
    proof (cases "a ! ?mid < x")
      case True
      have below: "\<forall>k<?mid + 1. a ! k < x"
      proof (intro allI impI)
        fix k assume "k < ?mid + 1"
        then have "k \<le> ?mid" by simp
        moreover have "?mid < length a" using mid "1.prems"(3) by simp
        ultimately have "a ! k \<le> a ! ?mid"
          using \<open>sorted a\<close> by (simp add: sorted_nth_mono)
        with True show "a ! k < x" by simp
      qed
      have "(\<forall>k<bisect_loop a x (?mid + 1) hi. a ! k < x) \<and>
            (\<forall>k. bisect_loop a x (?mid + 1) hi \<le> k \<and> k < length a \<longrightarrow> x \<le> a ! k)"
        using "1.IH"(1) [OF lt True "1.prems"(1) _ "1.prems"(3) below "1.prems"(5)] mid
        by simp
      with lt True show ?thesis by (simp add: bisect_loop_right)
    next
      case False
      have above: "\<forall>k. ?mid \<le> k \<and> k < length a \<longrightarrow> x \<le> a ! k"
      proof (intro allI impI)
        fix k assume "?mid \<le> k \<and> k < length a"
        then have "a ! ?mid \<le> a ! k"
          using \<open>sorted a\<close> by (simp add: sorted_nth_mono)
        with False show "x \<le> a ! k" by simp
      qed
      have "(\<forall>k<bisect_loop a x lo ?mid. a ! k < x) \<and>
            (\<forall>k. bisect_loop a x lo ?mid \<le> k \<and> k < length a \<longrightarrow> x \<le> a ! k)"
        using "1.IH"(2) [OF lt False "1.prems"(1) _ _ "1.prems"(4) above] mid "1.prems"(3)
        by simp
      with lt False show ?thesis by (simp add: bisect_loop_left)
    qed
  qed
qed

lemma bisect_left_sorted:
  assumes "sorted a"
  shows "\<forall>k<bisect_left a x. a ! k < x"
    and "\<forall>k. bisect_left a x \<le> k \<and> k < length a \<longrightarrow> x \<le> a ! k"
  using bisect_loop_sorted [of a 0 "length a" x] assms
  by (simp_all add: bisect_left_def)

lemma bisect_left_take:
  assumes "sorted a"
  shows "\<forall>y\<in>set (take (bisect_left a x) a). y < x"
proof
  fix y assume "y \<in> set (take (bisect_left a x) a)"
  then obtain k where "k < length (take (bisect_left a x) a)" "take (bisect_left a x) a ! k = y"
    by (auto simp: in_set_conv_nth)
  then show "y < x" using bisect_left_sorted(1) [OF assms, of x] by auto
qed

lemma bisect_left_drop:
  assumes "sorted a"
  shows "\<forall>y\<in>set (drop (bisect_left a x) a). x \<le> y"
proof
  fix y assume "y \<in> set (drop (bisect_left a x) a)"
  then obtain k where k: "k < length (drop (bisect_left a x) a)" "drop (bisect_left a x) a ! k = y"
    by (auto simp: in_set_conv_nth)
  then have "bisect_left a x + k < length a" by simp
  with k show "x \<le> y" using bisect_left_sorted(2) [OF assms, of x] by auto
qed


section \<open>Rows as finite maps\<close>

lemma row_val_Nil [simp]: "row_val [] [] k = 0"
  by (simp add: row_val_def)

lemma map_of_zip_append:
  "length pre = length dpre \<Longrightarrow>
   map_of (zip (pre @ post) (dpre @ dpost)) k =
     (case map_of (zip pre dpre) k of None \<Rightarrow> map_of (zip post dpost) k | Some v \<Rightarrow> Some v)"
  by (simp add: map_of_append map_add_def)

lemma map_of_zip_notin: "k \<notin> set xs \<Longrightarrow> map_of (zip xs ys) k = None"
  by (auto simp: map_of_eq_None_iff dest: set_zip_leftD)

lemma row_val_notin: "k \<notin> set row \<Longrightarrow> row_val row dat k = 0"
  by (simp add: row_val_def map_of_zip_notin)

lemma row_val_insert:
  assumes "length pre = length dpre" "j \<notin> set pre"
  shows "row_val (pre @ j # post) (dpre @ x # dpost) k =
           (if k = j then x else row_val (pre @ post) (dpre @ dpost) k)"
proof -
  have n: "map_of (zip pre dpre) j = None"
    using assms(2) by (rule map_of_zip_notin)
  show ?thesis
    unfolding row_val_def map_of_zip_append [OF assms(1)]
    using n by (cases "map_of (zip pre dpre) k") auto
qed

lemma row_val_absent:
  assumes "j \<notin> set pre" "j \<notin> set post"
  shows "row_val (pre @ post) (dpre @ dpost) j = 0"
  using assms by (simp add: row_val_notin)

section \<open>What the binary search finds in a strictly increasing row\<close>

lemma strict_sorted_split:
  assumes "sorted_wrt (<) row"
  shows "\<forall>y\<in>set (take (bisect_left row j) row). y < j"
    and "\<forall>y\<in>set (drop (bisect_left row j) row). j \<le> y"
  using assms bisect_left_take bisect_left_drop strict_sorted_imp_sorted by blast+

lemma bisect_left_found_iff:
  assumes "sorted_wrt (<) row"
  shows "(bisect_left row j < length row \<and> row ! bisect_left row j = j) \<longleftrightarrow> j \<in> set row"
proof
  assume "bisect_left row j < length row \<and> row ! bisect_left row j = j"
  then show "j \<in> set row" using nth_mem [of "bisect_left row j" row] by auto
next
  assume "j \<in> set row"
  let ?r = "bisect_left row j"
  have "set (take ?r row @ drop ?r row) = set (take ?r row) \<union> set (drop ?r row)"
    by (rule set_append)
  then have "set row = set (take ?r row) \<union> set (drop ?r row)" by simp
  with \<open>j \<in> set row\<close> strict_sorted_split(1) [OF assms, of j]
  have in_drop: "j \<in> set (drop ?r row)" by auto
  then have lt: "?r < length row" by (cases "?r < length row") auto
  then have d: "drop ?r row = row ! ?r # drop (Suc ?r) row"
    by (simp add: Cons_nth_drop_Suc)
  have "sorted_wrt (<) (drop ?r row)" using assms by (simp add: sorted_wrt_drop)
  with d have "\<forall>y\<in>set (drop (Suc ?r) row). row ! ?r < y" by simp
  moreover have "row ! ?r \<in> set (drop ?r row)" by (subst d) simp
  then have "j \<le> row ! ?r" using strict_sorted_split(2) [OF assms, of j] by blast
  ultimately have "row ! ?r = j" using in_drop d by auto
  with lt show "?r < length row \<and> row ! ?r = j" by simp
qed

lemma strict_sorted_after:
  assumes "sorted_wrt (<) row" "r < length row"
  shows "\<forall>y\<in>set (drop (Suc r) row). row ! r < y"
proof -
  have "sorted_wrt (<) (drop r row)" using assms by (simp add: sorted_wrt_drop)
  moreover have "drop r row = row ! r # drop (Suc r) row"
    using assms by (simp add: Cons_nth_drop_Suc)
  ultimately show ?thesis by simp
qed


section \<open>One insertion keeps a row well formed\<close>

lemma set_take_drop: "set (take n xs) \<union> set (drop n xs) = set xs"
  using set_append [of "take n xs" "drop n xs"] by simp

lemma set_insert_mid: "set (take n xs @ v # drop n xs) = insert v (set xs)"
  using set_take_drop [of n xs] by auto

lemma sorted_wrt_insert_mid:
  assumes "sorted_wrt (<) (pre @ post)" "\<forall>y\<in>set pre. y < (j::int)" "\<forall>y\<in>set post. j < y"
  shows "sorted_wrt (<) (pre @ j # post)"
  using assms by (auto simp: sorted_wrt_append)

lemma sorted_wrt_remove_mid:
  assumes "sorted_wrt (<) (pre @ (j::int) # post)"
  shows "sorted_wrt (<) (pre @ post)"
  using assms by (auto simp: sorted_wrt_append)

text \<open>
  The effect of \<open>insertat2\<close> on a well-formed row, for a column inside the matrix: it
  succeeds, the row stays well formed, column \<open>j\<close> holds \<open>x\<close> afterwards and every
  other column what it held before.
\<close>

lemma insertat2_row_ok:
  fixes x :: "'a::zero"
  assumes ok: "row_ok row dat" and v: "valid N j0"
  shows "\<exists>row' dat'. insertat2 N row dat j0 (Scalar x) = Inr (row', dat') \<and>
           row_ok row' dat' \<and>
           (\<forall>k. row_val row' dat' k = (if k = wrap N j0 then x else row_val row dat k)) \<and>
           set row' = (if x \<noteq> 0 then insert (wrap N j0) (set row) else set row - {wrap N j0}) \<and>
           length row' = (if x \<noteq> 0 then (if wrap N j0 \<in> set row then length row else Suc (length row))
                          else (if wrap N j0 \<in> set row then length row - 1 else length row))"
proof -
  let ?j = "wrap N j0"
  let ?r = "bisect_left row ?j"
  let ?pre = "take ?r row" and ?post = "drop ?r row"
  let ?dpre = "take ?r dat" and ?dpost = "drop ?r dat"
  from ok have ss: "sorted_wrt (<) row" and len: "length dat = length row" and nz: "0 \<notin> set dat"
    by (simp_all add: row_ok_def)
  have rle: "?r \<le> length row" by (rule bisect_left_le)
  have lpre: "length ?pre = length ?dpre" using len by simp
  have pre_lt: "\<forall>y\<in>set ?pre. y < ?j" and post_ge: "\<forall>y\<in>set ?post. ?j \<le> y"
    using strict_sorted_split [OF ss] by blast+
  have jpre: "?j \<notin> set ?pre" using pre_lt by auto
  have row_eq: "row = ?pre @ ?post" and dat_eq: "dat = ?dpre @ ?dpost" by simp_all
  have found: "(?r < length row \<and> row ! ?r = ?j) \<longleftrightarrow> ?j \<in> set row"
    by (rule bisect_left_found_iff [OF ss])
  have unfold: "insertat2 N row dat j0 (Scalar x) =
     (if x \<noteq> 0 then
        (if ?r = length row then Inr (row @ [?j], dat @ [x])
         else if row ! ?r \<noteq> ?j then Inr (list_insert row ?r ?j, list_insert dat ?r x)
         else if ?r < length dat then Inr (row, dat[?r := x])
         else Inl IndexError)
      else
        (if ?r < length row \<and> row ! ?r = ?j then
           (if ?r < length dat then Inr (list_del row ?r, list_del dat ?r)
            else Inl IndexError)
         else Inr (row, dat)))"
    using v by (simp add: insertat2_def valid_def wrap_def Let_def)
  show ?thesis
  proof (cases "?j \<in> set row")
    case False
    \<comment> \<open>the column is absent: insert it (or do nothing for a zero)\<close>
    with found have nf: "\<not> (?r < length row \<and> row ! ?r = ?j)" by simp
    have post_gt: "\<forall>y\<in>set ?post. ?j < y"
    proof
      fix y assume y: "y \<in> set ?post"
      then have "y \<in> set row" by (rule in_set_dropD)
      with False have "y \<noteq> ?j" by auto
      with post_ge y show "?j < y" by force
    qed
    have val0: "row_val row dat ?j = 0" using False by (rule row_val_notin)
    show ?thesis
    proof (cases "x = 0")
      case True
      have res: "insertat2 N row dat j0 (Scalar x) = Inr (row, dat)"
        unfolding unfold using nf True by auto
      have vals: "\<forall>k. row_val row dat k = (if k = ?j then x else row_val row dat k)"
        using val0 True by simp
      have st: "set row = (if x \<noteq> 0 then insert ?j (set row) else set row - {?j})"
        using True False by simp
      have ln: "length row = (if x \<noteq> 0 then (if ?j \<in> set row then length row else Suc (length row))
                          else (if ?j \<in> set row then length row - 1 else length row))"
        using True False by simp
      from res ok vals st ln show ?thesis by blast
    next
      case xnz: False
      have res: "insertat2 N row dat j0 (Scalar x) = Inr (?pre @ ?j # ?post, ?dpre @ x # ?dpost)"
      proof (cases "?r = length row")
        case True
        with unfold xnz len show ?thesis by simp
      next
        case False
        with nf rle have "row ! ?r \<noteq> ?j" by simp
        with unfold xnz False show ?thesis by (simp add: list_insert_def)
      qed
      have s': "sorted_wrt (<) (?pre @ ?j # ?post)"
        using sorted_wrt_insert_mid [OF _ pre_lt post_gt] ss by simp
      have l': "length (?dpre @ x # ?dpost) = length (?pre @ ?j # ?post)" using len by simp
      have nz': "0 \<notin> set (?dpre @ x # ?dpost)"
        unfolding set_insert_mid using nz xnz by simp
      have ok': "row_ok (?pre @ ?j # ?post) (?dpre @ x # ?dpost)"
        unfolding row_ok_def using s' l' nz' by blast
      have vals: "\<forall>k. row_val (?pre @ ?j # ?post) (?dpre @ x # ?dpost) k =
                      (if k = ?j then x else row_val row dat k)"
        using row_val_insert [OF lpre jpre, of ?post x ?dpost] by simp
      have st: "set (?pre @ ?j # ?post) = (if x \<noteq> 0 then insert ?j (set row) else set row - {?j})"
        using xnz set_insert_mid [of ?r row ?j] by simp
      have "length (?pre @ ?j # ?post) = Suc (length row)" using rle by simp
      then have ln: "length (?pre @ ?j # ?post) =
          (if x \<noteq> 0 then (if ?j \<in> set row then length row else Suc (length row))
           else (if ?j \<in> set row then length row - 1 else length row))"
        using xnz False by simp
      from res ok' vals st ln show ?thesis by blast
    qed
  next
    case True
    \<comment> \<open>the column is present at position \<open>r\<close>: overwrite it (or delete it for a zero)\<close>
    with found have rlt: "?r < length row" and at: "row ! ?r = ?j" by simp_all
    let ?post' = "drop (Suc ?r) row" and ?dpost' = "drop (Suc ?r) dat"
    have post: "?post = ?j # ?post'" using rlt at by (simp add: Cons_nth_drop_Suc [symmetric])
    have dpost: "?dpost = dat ! ?r # ?dpost'"
      using rlt len by (simp add: Cons_nth_drop_Suc [symmetric])
    have rowd: "row = ?pre @ ?j # ?post'" using row_eq post by simp
    have datd: "dat = ?dpre @ dat ! ?r # ?dpost'" using dat_eq dpost by simp
    have post_gt: "\<forall>y\<in>set ?post'. ?j < y" using strict_sorted_after [OF ss rlt] at by simp
    have jpost: "?j \<notin> set ?post'" using post_gt by auto
    have s_del: "sorted_wrt (<) (?pre @ ?post')"
      using sorted_wrt_remove_mid [of ?pre ?j ?post'] ss rowd by simp
    show ?thesis
    proof (cases "x = 0")
      case x0: True
      have res: "insertat2 N row dat j0 (Scalar x) = Inr (?pre @ ?post', ?dpre @ ?dpost')"
        using unfold x0 rlt at len by (simp add: list_del_def)
      have "set (?dpre @ ?dpost') \<subseteq> set dat"
        using set_take_subset [of ?r dat] set_drop_subset [of "Suc ?r" dat] by auto
      then have nz': "0 \<notin> set (?dpre @ ?dpost')" using nz by blast
      have ok': "row_ok (?pre @ ?post') (?dpre @ ?dpost')"
        unfolding row_ok_def using s_del nz' len by simp
      have vals: "\<forall>k. row_val (?pre @ ?post') (?dpre @ ?dpost') k =
                      (if k = ?j then x else row_val row dat k)"
      proof
        fix k
        show "row_val (?pre @ ?post') (?dpre @ ?dpost') k = (if k = ?j then x else row_val row dat k)"
        proof (cases "k = ?j")
          case True
          then show ?thesis using row_val_absent [OF jpre jpost] x0 by simp
        next
          case False
          have "row_val (?pre @ ?j # ?post') (?dpre @ dat ! ?r # ?dpost') k =
                row_val (?pre @ ?post') (?dpre @ ?dpost') k"
            using row_val_insert [OF lpre jpre, of ?post' "dat ! ?r" ?dpost' k] False by simp
          then show ?thesis using False rowd datd by simp
        qed
      qed
      have "set (?pre @ ?j # ?post') = insert ?j (set (?pre @ ?post'))" by simp
      then have "set row = insert ?j (set (?pre @ ?post'))" by (subst rowd)
      moreover have "?j \<notin> set (?pre @ ?post')" using jpre jpost by simp
      ultimately have "set (?pre @ ?post') = set row - {?j}" by auto
      then have st: "set (?pre @ ?post') = (if x \<noteq> 0 then insert ?j (set row) else set row - {?j})"
        using x0 by simp
      have "length (?pre @ ?post') = length row - 1" using rlt by simp
      then have ln: "length (?pre @ ?post') =
          (if x \<noteq> 0 then (if ?j \<in> set row then length row else Suc (length row))
           else (if ?j \<in> set row then length row - 1 else length row))"
        using x0 True by simp
      from res ok' vals st ln show ?thesis by blast
    next
      case xnz: False
      have res: "insertat2 N row dat j0 (Scalar x) = Inr (row, dat[?r := x])"
        using unfold xnz rlt at len by simp
      have upd: "dat[?r := x] = ?dpre @ x # ?dpost'"
        using rlt len by (simp add: upd_conv_take_nth_drop)
      have "set (?dpre @ x # ?dpost') \<subseteq> insert x (set dat)"
        using set_take_subset [of ?r dat] set_drop_subset [of "Suc ?r" dat] by auto
      then have nz': "0 \<notin> set (dat[?r := x])" using nz xnz upd by auto
      have ok': "row_ok row (dat[?r := x])"
        unfolding row_ok_def using ss nz' len by simp
      have vals: "\<forall>k. row_val row (dat[?r := x]) k = (if k = ?j then x else row_val row dat k)"
      proof
        fix k
        have a: "row_val (?pre @ ?j # ?post') (?dpre @ x # ?dpost') k =
                   (if k = ?j then x else row_val (?pre @ ?post') (?dpre @ ?dpost') k)"
          by (rule row_val_insert [OF lpre jpre])
        have b: "row_val (?pre @ ?j # ?post') (?dpre @ dat ! ?r # ?dpost') k =
                   (if k = ?j then dat ! ?r else row_val (?pre @ ?post') (?dpre @ ?dpost') k)"
          by (rule row_val_insert [OF lpre jpre])
        have "row_val row (dat[?r := x]) k = row_val (?pre @ ?j # ?post') (?dpre @ x # ?dpost') k"
          using rowd upd by simp
        moreover have "row_val row dat k = row_val (?pre @ ?j # ?post') (?dpre @ dat ! ?r # ?dpost') k"
          using rowd datd by simp
        ultimately show "row_val row (dat[?r := x]) k = (if k = ?j then x else row_val row dat k)"
          using a b by simp
      qed
      have st: "set row = (if x \<noteq> 0 then insert ?j (set row) else set row - {?j})"
        using xnz True by auto
      have ln: "length row =
          (if x \<noteq> 0 then (if ?j \<in> set row then length row else Suc (length row))
           else (if ?j \<in> set row then length row - 1 else length row))"
        using xnz True by simp
      from res ok' vals st ln show ?thesis by blast
    qed
  qed
qed


section \<open>Single-element access on a matrix\<close>

lemma ebind_Inr [simp]: "ebind (Inr v) f = f v"
  by (simp add: ebind_def)

lemma ebind_Inl [simp]: "ebind (Inl e) f = Inl e"
  by (simp add: ebind_def)

lemma ebind_Inr_right [simp]: "ebind r Inr = r"
  by (cases r) simp_all

lemma np_index_valid: "valid n i \<Longrightarrow> np_index n i = Inr (nat (wrap n i))"
  by (auto simp: np_index_def valid_def wrap_def split: if_splits)

lemma valid_nat_lt: "valid n i \<Longrightarrow> nat (wrap n i) < n"
  by (auto simp: valid_def)

lemma set_elem_set_at: "set_elem A i j x = set_at A i j (Scalar x)"
  by (simp add: set_elem_def setitem_def setitem_norm_def broadcast_ij_def shape2_def)

lemma get_get1: "get A i j = ebind (get1 A i j) (\<lambda>v. Inr (GValue v))"
  by (simp add: get_def getitem_def getitem_norm_def broadcast_ij_def shape2_def)

lemma lil_inv_row:
  "lil_inv A \<Longrightarrow> k < fst (shape A) \<Longrightarrow> row_ok (rows A ! k) (data A ! k)"
  by (simp add: lil_inv_def list_all2_conv_all_nth)

lemma lil_inv_lengths:
  "lil_inv A \<Longrightarrow> length (rows A) = fst (shape A) \<and> length (data A) = fst (shape A)"
  by (auto simp: lil_inv_def dest: list_all2_lengthD)

lemma row_get_ok:
  assumes "row_ok row dat"
  shows "row_get row dat j = Inr (row_val row dat j)"
proof -
  let ?r = "bisect_left row j"
  from assms have ss: "sorted_wrt (<) row" and len: "length dat = length row"
    by (simp_all add: row_ok_def)
  have found: "(?r < length row \<and> row ! ?r = j) \<longleftrightarrow> j \<in> set row"
    by (rule bisect_left_found_iff [OF ss])
  have rle: "?r \<le> length row" by (rule bisect_left_le)
  show ?thesis
  proof (cases "j \<in> set row")
    case False
    then have v: "row_val row dat j = 0" by (rule row_val_notin)
    from False found have "\<not> (?r < length row \<and> row ! ?r = j)" by simp
    then show ?thesis using v len rle by (auto simp: row_get_def Let_def)
  next
    case True
    with found have rlt: "?r < length row" and at: "row ! ?r = j" by simp_all
    have lpre: "length (take ?r row) = length (take ?r dat)" using len by simp
    have jpre: "j \<notin> set (take ?r row)" using strict_sorted_split(1) [OF ss, of j] by auto
    have rowd: "row = take ?r row @ j # drop (Suc ?r) row"
      using rlt at by (metis id_take_nth_drop)
    have datd: "dat = take ?r dat @ dat ! ?r # drop (Suc ?r) dat"
      using rlt len by (simp add: id_take_nth_drop [symmetric])
    have "row_val (take ?r row @ j # drop (Suc ?r) row) (take ?r dat @ dat ! ?r # drop (Suc ?r) dat) j
            = dat ! ?r"
      using row_val_insert [OF lpre jpre, of "drop (Suc ?r) row" "dat ! ?r" "drop (Suc ?r) dat" j]
      by simp
    then have "row_val row dat j = dat ! ?r" using rowd datd by simp
    then show ?thesis using rlt at len by (simp add: row_get_def Let_def)
  qed
qed

lemma get1_ok:
  assumes "lil_inv A" "valid (fst (shape A)) i" "valid (snd (shape A)) j"
  shows "get1 A i j = Inr (entry A (nat (wrap (fst (shape A)) i)) (wrap (snd (shape A)) j))"
proof -
  let ?M = "fst (shape A)" and ?N = "snd (shape A)"
  let ?k = "nat (wrap ?M i)"
  have k: "?k < ?M" using assms(2) by (rule valid_nat_lt)
  have wi: "0 \<le> wrap ?M i" "wrap ?M i < int ?M" using assms(2) by (simp_all add: valid_def)
  have wj: "0 \<le> wrap ?N j" "wrap ?N j < int ?N" using assms(3) by (simp_all add: valid_def)
  have ix: "np_index ?M (wrap ?M i) = Inr ?k"
    using wi by (simp add: np_index_def)
  have rg: "row_get (rows A ! ?k) (data A ! ?k) (wrap ?N j) = Inr (entry A ?k (wrap ?N j))"
    unfolding entry_def by (rule row_get_ok [OF lil_inv_row [OF assms(1) k]])
  have "get1 A i j =
      ebind (np_index (length (rows A)) (wrap ?M i)) (\<lambda>kr.
      ebind (np_index (length (data A)) (wrap ?M i)) (\<lambda>kd.
        row_get (rows A ! kr) (data A ! kd) (wrap ?N j)))"
    using wi wj by (simp add: get1_def Let_def wrap_def)
  then show ?thesis using lil_inv_lengths [OF assms(1)] ix rg by simp
qed

lemma get1_invalid:
  "\<not> (valid (fst (shape A)) i \<and> valid (snd (shape A)) j) \<Longrightarrow> get1 A i j = Inl IndexError"
  by (auto simp: get1_def valid_def wrap_def Let_def)

text \<open>The effect of one \<open>set_at\<close> step on a well-formed matrix.\<close>

lemma set_at_ok:
  fixes x :: "'a::zero"
  assumes inv: "lil_inv A" and vi: "valid (fst (shape A)) i" and vj: "valid (snd (shape A)) j"
  shows "\<exists>A'. set_at A i j (Scalar x) = Inr A' \<and> lil_inv A' \<and> shape A' = shape A \<and>
           (\<forall>p q. p < fst (shape A) \<longrightarrow>
              entry A' p q = (if p = nat (wrap (fst (shape A)) i) \<and> q = wrap (snd (shape A)) j
                              then x else entry A p q)) \<and>
           (\<forall>p. p \<noteq> nat (wrap (fst (shape A)) i) \<longrightarrow>
              rows A' ! p = rows A ! p \<and> data A' ! p = data A ! p) \<and>
           set (rows A' ! nat (wrap (fst (shape A)) i)) =
             (if x \<noteq> 0 then insert (wrap (snd (shape A)) j) (set (rows A ! nat (wrap (fst (shape A)) i)))
              else set (rows A ! nat (wrap (fst (shape A)) i)) - {wrap (snd (shape A)) j}) \<and>
           length (rows A' ! nat (wrap (fst (shape A)) i)) =
             (if x \<noteq> 0
              then (if wrap (snd (shape A)) j \<in> set (rows A ! nat (wrap (fst (shape A)) i))
                    then length (rows A ! nat (wrap (fst (shape A)) i))
                    else Suc (length (rows A ! nat (wrap (fst (shape A)) i))))
              else (if wrap (snd (shape A)) j \<in> set (rows A ! nat (wrap (fst (shape A)) i))
                    then length (rows A ! nat (wrap (fst (shape A)) i)) - 1
                    else length (rows A ! nat (wrap (fst (shape A)) i))))"
proof -
  let ?M = "fst (shape A)" and ?N = "snd (shape A)"
  let ?k = "nat (wrap ?M i)" and ?j = "wrap ?N j"
  have k: "?k < ?M" using vi by (rule valid_nat_lt)
  have lens: "length (rows A) = ?M" "length (data A) = ?M"
    using lil_inv_lengths [OF inv] by simp_all
  have rok: "row_ok (rows A ! ?k) (data A ! ?k)" by (rule lil_inv_row [OF inv k])
  from insertat2_row_ok [OF rok vj, of x]
  obtain row' dat' where
    res: "insertat2 ?N (rows A ! ?k) (data A ! ?k) j (Scalar x) = Inr (row', dat')" and
    ok': "row_ok row' dat'" and
    vals: "\<forall>q. row_val row' dat' q = (if q = ?j then x else row_val (rows A ! ?k) (data A ! ?k) q)" and
    st: "set row' = (if x \<noteq> 0 then insert ?j (set (rows A ! ?k)) else set (rows A ! ?k) - {?j})" and
    ln: "length row' = (if x \<noteq> 0 then (if ?j \<in> set (rows A ! ?k) then length (rows A ! ?k)
                                          else Suc (length (rows A ! ?k)))
                        else (if ?j \<in> set (rows A ! ?k) then length (rows A ! ?k) - 1
                              else length (rows A ! ?k)))"
    by blast
  define A' where "A' = A\<lparr>rows := (rows A)[?k := row'], data := (data A)[?k := dat']\<rparr>"
  have sh: "shape A' = shape A" by (simp add: A'_def)
  have r': "rows A' = (rows A)[?k := row']" and d': "data A' = (data A)[?k := dat']"
    by (simp_all add: A'_def)
  have step: "set_at A i j (Scalar x) = Inr A'"
    using np_index_valid [OF vi] lens res by (simp add: set_at_def A'_def)
  have "row_ok ((rows A)[?k := row'] ! p) ((data A)[?k := dat'] ! p)" if "p < ?M" for p
  proof (cases "p = ?k")
    case True
    then show ?thesis using k lens ok' by simp
  next
    case False
    then show ?thesis using lil_inv_row [OF inv that] by simp
  qed
  then have inv': "lil_inv A'"
    unfolding lil_inv_def sh r' d' list_all2_conv_all_nth using lens by simp
  have ent: "\<forall>p q. p < ?M \<longrightarrow> entry A' p q = (if p = ?k \<and> q = ?j then x else entry A p q)"
  proof (intro allI impI)
    fix p q assume "p < ?M"
    show "entry A' p q = (if p = ?k \<and> q = ?j then x else entry A p q)"
    proof (cases "p = ?k")
      case True
      then show ?thesis unfolding entry_def r' d' using k lens vals by simp
    next
      case False
      then show ?thesis unfolding entry_def r' d' by simp
    qed
  qed
  have other: "\<forall>p. p \<noteq> ?k \<longrightarrow> rows A' ! p = rows A ! p \<and> data A' ! p = data A ! p"
    unfolding r' d' by simp
  have rk: "rows A' ! ?k = row'" unfolding r' using k lens by simp
  from step inv' sh ent other st ln show ?thesis unfolding rk [symmetric] by blast
qed


section \<open>Single-element access: invariant, read after write, erasure\<close>

lemma lil_inv_empty: "lil_inv (lil_empty s)"
  by (simp add: lil_inv_def lil_empty_def row_ok_def list_all2_conv_all_nth)

lemma set_seq_ok:
  fixes A :: "'a::zero lil_matrix"
  assumes "lil_inv A"
    and "\<forall>(i, j, x)\<in>set ops. valid (fst (shape A)) i \<and> valid (snd (shape A)) j"
  shows "\<exists>A'. set_seq A ops = Inr A' \<and> lil_inv A' \<and> shape A' = shape A"
  using assms
proof (induction ops arbitrary: A)
  case Nil
  then show ?case by simp
next
  case (Cons op ops)
  obtain i j x where op: "op = (i, j, x)" by (cases op) auto
  from Cons.prems(2) op have vi: "valid (fst (shape A)) i" and vj: "valid (snd (shape A)) j"
    by auto
  from set_at_ok [OF Cons.prems(1) vi vj, of x]
  obtain A1 where s1: "set_at A i j (Scalar x) = Inr A1" and i1: "lil_inv A1"
    and sh1: "shape A1 = shape A" by blast
  have "\<forall>(i, j, x)\<in>set ops. valid (fst (shape A1)) i \<and> valid (snd (shape A1)) j"
    using Cons.prems(2) sh1 by auto
  from Cons.IH [OF i1 this]
  obtain A' where "set_seq A1 ops = Inr A'" "lil_inv A'" "shape A' = shape A1" by blast
  then show ?case using s1 sh1 op by (simp add: set_elem_set_at)
qed

text \<open>
  C1. Starting from a matrix whose rows are well formed (the empty matrix is one), any
  finite sequence of \<open>set(i, j, x)\<close> calls whose indices are in range after the
  wrap-around of negative ones runs to its end, and afterwards every row's column list
  is strictly increasing and without duplicates, every row's value list is as long as
  its column list, and no stored value is zero.
\<close>

theorem set_seq_keeps_rows_sorted:
  fixes A :: "'a::zero lil_matrix"
  assumes "lil_inv A"
    and "\<forall>(i, j, x)\<in>set ops. valid (fst (shape A)) i \<and> valid (snd (shape A)) j"
  shows "\<exists>A'. set_seq A ops = Inr A' \<and> shape A' = shape A \<and>
           length (rows A') = fst (shape A) \<and> length (data A') = fst (shape A) \<and>
           (\<forall>r < fst (shape A).
              sorted_wrt (<) (rows A' ! r) \<and> distinct (rows A' ! r) \<and>
              length (data A' ! r) = length (rows A' ! r) \<and>
              0 \<notin> set (data A' ! r))"
proof -
  from set_seq_ok [OF assms]
  obtain A' where run: "set_seq A ops = Inr A'" and inv: "lil_inv A'" and sh: "shape A' = shape A"
    by blast
  have "sorted_wrt (<) (rows A' ! r) \<and> distinct (rows A' ! r) \<and>
        length (data A' ! r) = length (rows A' ! r) \<and> 0 \<notin> set (data A' ! r)"
    if "r < fst (shape A)" for r
  proof -
    have ok: "row_ok (rows A' ! r) (data A' ! r)" using lil_inv_row [OF inv] that sh by simp
    then have "sorted_wrt (<) (rows A' ! r)" by (simp add: row_ok_def)
    then have "distinct (rows A' ! r)" by (simp add: strict_sorted_iff)
    with ok show ?thesis by (simp add: row_ok_def)
  qed
  with run sh lil_inv_lengths [OF inv] show ?thesis by auto
qed

theorem set_seq_keeps_rows_sorted_witness:
  "\<exists>A'. set_seq (lil_empty (2, 2) :: int lil_matrix)
           [(- 1, - 1, 5), (0, 1, 2), (0, 0, 3), (0, 1, 0)] = Inr A' \<and>
         sorted_wrt (<) (rows A' ! 0) \<and> sorted_wrt (<) (rows A' ! 1) \<and>
         distinct (rows A' ! 0) \<and> distinct (rows A' ! 1) \<and>
         length (data A' ! 0) = length (rows A' ! 0) \<and>
         length (data A' ! 1) = length (rows A' ! 1) \<and>
         0 \<notin> set (data A' ! 0) \<and> 0 \<notin> set (data A' ! 1)"
proof -
  let ?A = "lil_empty (2, 2) :: int lil_matrix"
  let ?ops = "[(- 1, - 1, 5), (0, 1, 2), (0, 0, 3), (0, 1, 0)] :: (int \<times> int \<times> int) list"
  have h1: "lil_inv ?A" by (rule lil_inv_empty)
  have h2: "\<forall>(i, j, x)\<in>set ?ops. valid (fst (shape ?A)) i \<and> valid (snd (shape ?A)) j"
    by (simp add: lil_empty_def valid_def wrap_def)
  have M: "fst (shape ?A) = 2" by (simp add: lil_empty_def)
  from set_seq_keeps_rows_sorted [OF h1 h2]
  obtain A' where run: "set_seq ?A ?ops = Inr A'"
    and all: "\<forall>r < fst (shape ?A).
              sorted_wrt (<) (rows A' ! r) \<and> distinct (rows A' ! r) \<and>
              length (data A' ! r) = length (rows A' ! r) \<and> 0 \<notin> set (data A' ! r)"
    by blast
  from all M have "sorted_wrt (<) (rows A' ! 0) \<and> distinct (rows A' ! 0) \<and>
      length (data A' ! 0) = length (rows A' ! 0) \<and> 0 \<notin> set (data A' ! 0)"
    by simp
  moreover from all M have "sorted_wrt (<) (rows A' ! 1) \<and> distinct (rows A' ! 1) \<and>
      length (data A' ! 1) = length (rows A' ! 1) \<and> 0 \<notin> set (data A' ! 1)"
    by simp
  ultimately show ?thesis using run by blast
qed

text \<open>
  C2. On a well-formed matrix, for indices valid after the wrap-around and a nonzero
  \<open>x\<close>, \<open>set(i, j, x)\<close> succeeds and the following \<open>get(i, j)\<close> returns \<open>x\<close>.
\<close>

theorem get_after_set_nonzero:
  fixes A :: "'a::zero lil_matrix"
  assumes "lil_inv A" "valid (fst (shape A)) i" "valid (snd (shape A)) j" "x \<noteq> 0"
  shows "\<exists>A'. set_elem A i j x = Inr A' \<and> get A' i j = Inr (GValue x)"
proof -
  from set_at_ok [OF assms(1-3), of x]
  obtain A' where s: "set_at A i j (Scalar x) = Inr A'" and inv: "lil_inv A'"
    and sh: "shape A' = shape A"
    and ent: "\<forall>p q. p < fst (shape A) \<longrightarrow>
                entry A' p q = (if p = nat (wrap (fst (shape A)) i) \<and> q = wrap (snd (shape A)) j
                                then x else entry A p q)"
    by blast
  have "get1 A' i j = Inr (entry A' (nat (wrap (fst (shape A)) i)) (wrap (snd (shape A)) j))"
    using get1_ok [OF inv, of i j] assms(2,3) sh by simp
  also have "\<dots> = Inr x" using ent valid_nat_lt [OF assms(2)] by simp
  finally show ?thesis using s by (simp add: set_elem_set_at get_get1)
qed

theorem get_after_set_nonzero_witness:
  "\<exists>A'. set_elem (lil_empty (2, 2) :: int lil_matrix) (- 1) 0 7 = Inr A' \<and>
         get A' (- 1) 0 = Inr (GValue 7)"
proof -
  let ?A = "lil_empty (2, 2) :: int lil_matrix"
  have h1: "lil_inv ?A" by (rule lil_inv_empty)
  have h2: "valid (fst (shape ?A)) (- 1)" by (simp add: lil_empty_def valid_def wrap_def)
  have h3: "valid (snd (shape ?A)) 0" by (simp add: lil_empty_def valid_def wrap_def)
  have h4: "(7::int) \<noteq> 0" by simp
  show ?thesis by (rule get_after_set_nonzero [OF h1 h2 h3 h4])
qed

text \<open>
  C9. On a well-formed matrix, for valid indices, \<open>set(i, j, 0)\<close> succeeds, the
  following \<open>get(i, j)\<close> returns zero, column \<open>j\<close> is no longer stored in row \<open>i\<close>
  (whose two lists keep equal lengths), and the row is shorter by exactly one when the
  column was stored before and unchanged in length otherwise.
\<close>

theorem set_zero_removes_entry:
  fixes A :: "'a::zero lil_matrix"
  assumes "lil_inv A" "valid (fst (shape A)) i" "valid (snd (shape A)) j"
  shows "\<exists>A'. set_elem A i j 0 = Inr A' \<and> get A' i j = Inr (GValue 0) \<and>
           wrap (snd (shape A)) j \<notin> set (rows A' ! nat (wrap (fst (shape A)) i)) \<and>
           length (data A' ! nat (wrap (fst (shape A)) i)) =
             length (rows A' ! nat (wrap (fst (shape A)) i)) \<and>
           length (rows A ! nat (wrap (fst (shape A)) i)) =
             length (rows A' ! nat (wrap (fst (shape A)) i)) +
               (if wrap (snd (shape A)) j \<in> set (rows A ! nat (wrap (fst (shape A)) i)) then 1 else 0)"
proof -
  let ?k = "nat (wrap (fst (shape A)) i)" and ?j = "wrap (snd (shape A)) j"
  have k: "?k < fst (shape A)" using assms(2) by (rule valid_nat_lt)
  from set_at_ok [OF assms, of 0]
  obtain A' where s: "set_at A i j (Scalar 0) = Inr A'" and inv: "lil_inv A'"
    and sh: "shape A' = shape A"
    and ent: "\<forall>p q. p < fst (shape A) \<longrightarrow>
                entry A' p q = (if p = ?k \<and> q = ?j then 0 else entry A p q)"
    and st: "set (rows A' ! ?k) = set (rows A ! ?k) - {?j}"
    and ln: "length (rows A' ! ?k) =
               (if ?j \<in> set (rows A ! ?k) then length (rows A ! ?k) - 1 else length (rows A ! ?k))"
    by auto
  have "get1 A' i j = Inr (entry A' ?k ?j)"
    using get1_ok [OF inv, of i j] assms(2,3) sh by simp
  also have "\<dots> = Inr 0" using ent k by simp
  finally have g: "get A' i j = Inr (GValue 0)" by (simp add: get_get1)
  have absent: "?j \<notin> set (rows A' ! ?k)" using st by simp
  have "row_ok (rows A' ! ?k) (data A' ! ?k)" using lil_inv_row [OF inv] k sh by simp
  then have eq: "length (data A' ! ?k) = length (rows A' ! ?k)" by (simp add: row_ok_def)
  have "length (rows A ! ?k) > 0" if "?j \<in> set (rows A ! ?k)"
    using that by (cases "rows A ! ?k") auto
  with ln have dec: "length (rows A ! ?k) =
      length (rows A' ! ?k) + (if ?j \<in> set (rows A ! ?k) then 1 else 0)"
    by auto
  from s g absent eq dec show ?thesis by (simp add: set_elem_set_at)
qed

theorem set_zero_removes_entry_witness:
  "\<exists>A'. set_elem \<lparr>shape = (2, 2), rows = [[0, 1], []], data = [[4, 5 :: int], []]\<rparr> 0 (- 1) 0 = Inr A' \<and>
         get A' 0 (- 1) = Inr (GValue 0) \<and>
         1 \<notin> set (rows A' ! 0) \<and>
         length (data A' ! 0) = length (rows A' ! 0) \<and>
         length (rows A' ! 0) = 1"
proof -
  let ?A = "\<lparr>shape = (2, 2), rows = [[0, 1], []], data = [[4, 5 :: int], []]\<rparr>"
  have h1: "lil_inv ?A" by (simp add: lil_inv_def row_ok_def)
  have h2: "valid (fst (shape ?A)) 0" by (simp add: valid_def wrap_def)
  have h3: "valid (snd (shape ?A)) (- 1)" by (simp add: valid_def wrap_def)
  from set_zero_removes_entry [OF h1 h2 h3]
  obtain A' where a: "set_elem ?A 0 (- 1) 0 = Inr A'" "get A' 0 (- 1) = Inr (GValue 0)"
    and b: "wrap (snd (shape ?A)) (- 1) \<notin> set (rows A' ! nat (wrap (fst (shape ?A)) 0))"
    and c: "length (data A' ! nat (wrap (fst (shape ?A)) 0)) =
              length (rows A' ! nat (wrap (fst (shape ?A)) 0))"
    and d: "length (rows ?A ! nat (wrap (fst (shape ?A)) 0)) =
              length (rows A' ! nat (wrap (fst (shape ?A)) 0)) +
                (if wrap (snd (shape ?A)) (- 1) \<in> set (rows ?A ! nat (wrap (fst (shape ?A)) 0))
                 then 1 else 0)"
    by blast
  from b have b': "1 \<notin> set (rows A' ! 0)" by (simp add: wrap_def)
  from c have c': "length (data A' ! 0) = length (rows A' ! 0)" by (simp add: wrap_def)
  from d have d': "length (rows A' ! 0) = 1" by (simp add: wrap_def)
  from a b' c' d' show ?thesis by blast
qed

text \<open>
  C10. Multiplying by the scalar zero returns a matrix of the same shape with one empty
  column list and one empty value list per row: nothing is stored, so no zero is.
\<close>

theorem mul_scalar_zero_empty:
  fixes A :: "'a::{zero,times} lil_matrix"
  shows "shape (mul_scalar A 0) = shape A \<and>
         rows (mul_scalar A 0) = replicate (fst (shape A)) [] \<and>
         data (mul_scalar A 0) = replicate (fst (shape A)) [] \<and>
         getnnz (mul_scalar A 0) = 0 \<and> lil_inv (mul_scalar A 0)"
  by (simp add: mul_scalar_def lil_inv_empty) (simp add: lil_empty_def getnnz_def)



section \<open>Conversion to compressed rows\<close>

lemma wrap_signed_id:
  assumes "0 < w" "- (2 ^ (w - 1)) \<le> v" "v < 2 ^ (w - 1)"
  shows "wrap_signed w v = v"
proof -
  have p: "(2::int) ^ w = 2 * 2 ^ (w - 1)"
    using assms(1) by (cases w) simp_all
  have "0 \<le> v + 2 ^ (w - 1)" using assms(2) by simp
  moreover have "v + 2 ^ (w - 1) < 2 ^ w" using assms(3) p by simp
  ultimately have "(v + 2 ^ (w - 1)) mod 2 ^ w = v + 2 ^ (w - 1)" by (rule mod_pos_pos_trivial)
  then show ?thesis by (simp add: wrap_signed_def)
qed

lemma intc_id: "- (2 ^ 31) \<le> v \<Longrightarrow> v < 2 ^ 31 \<Longrightarrow> intc v = v"
  using wrap_signed_id [of 32 v] by (simp add: intc_def)

lemma intp_id: "0 \<le> v \<Longrightarrow> v < 2 ^ 63 \<Longrightarrow> intp v = v"
  using wrap_signed_id [of 64 v] by (simp add: intp_def)

lemma cumsum_length [simp]: "length (cumsum acc xs) = length xs"
  by (induction xs arbitrary: acc) simp_all

lemma sum_list_nonneg_int: "\<forall>x\<in>set xs. (0::int) \<le> x \<Longrightarrow> 0 \<le> sum_list xs"
  by (induction xs) simp_all

text \<open>While the running sum stays in range, each entry adds one row length to the last.\<close>

lemma cumsum_step:
  assumes "0 \<le> acc" "\<forall>x\<in>set xs. 0 \<le> x" "acc + sum_list xs < 2 ^ 63" "i < length xs"
  shows "(acc # cumsum acc xs) ! Suc i = (acc # cumsum acc xs) ! i + xs ! i"
  using assms
proof (induction xs arbitrary: acc i)
  case Nil
  then show ?case by simp
next
  case (Cons x xs)
  from Cons.prems(2) have x0: "0 \<le> x" and rest: "\<forall>y\<in>set xs. 0 \<le> y" by simp_all
  have s0: "0 \<le> sum_list xs" by (rule sum_list_nonneg_int [OF rest])
  have a0: "0 \<le> acc + x" using Cons.prems(1) x0 by simp
  have a1: "acc + x < 2 ^ 63" using Cons.prems(3) s0 by simp
  have ex: "intp (acc + x) = acc + x" by (rule intp_id [OF a0 a1])
  show ?case
  proof (cases i)
    case 0
    then show ?thesis by (simp add: ex)
  next
    case (Suc k)
    with Cons.prems(4) have k: "k < length xs" by simp
    have "(acc + x) + sum_list xs < 2 ^ 63" using Cons.prems(3) by (simp add: add.assoc)
    from Cons.IH [OF a0 rest this k] Suc show ?thesis by (simp add: ex)
  qed
qed

lemma cumsum_last:
  assumes "0 \<le> acc" "\<forall>x\<in>set xs. 0 \<le> x" "acc + sum_list xs < 2 ^ 63"
  shows "(acc # cumsum acc xs) ! length xs = acc + sum_list xs"
  using assms
proof (induction xs arbitrary: acc)
  case Nil
  then show ?case by simp
next
  case (Cons x xs)
  from Cons.prems(2) have x0: "0 \<le> x" and rest: "\<forall>y\<in>set xs. 0 \<le> y" by simp_all
  have s0: "0 \<le> sum_list xs" by (rule sum_list_nonneg_int [OF rest])
  have a0: "0 \<le> acc + x" using Cons.prems(1) x0 by simp
  have a1: "acc + x < 2 ^ 63" using Cons.prems(3) s0 by simp
  have ex: "intp (acc + x) = acc + x" by (rule intp_id [OF a0 a1])
  have "(acc + x) + sum_list xs < 2 ^ 63" using Cons.prems(3) by (simp add: add.assoc)
  from Cons.IH [OF a0 rest this] show ?case by (simp add: ex add.assoc)
qed

lemma lil_inv_same_lengths:
  assumes "lil_inv A"
  shows "map length (data A) = map length (rows A)"
proof (rule nth_equalityI)
  show "length (map length (data A)) = length (map length (rows A))"
    using lil_inv_lengths [OF assms] by simp
next
  fix i assume "i < length (map length (data A))"
  then have i: "i < fst (shape A)" using lil_inv_lengths [OF assms] by simp
  from lil_inv_row [OF assms i] have "length (data A ! i) = length (rows A ! i)"
    by (simp add: row_ok_def)
  then show "map length (data A) ! i = map length (rows A) ! i"
    using i lil_inv_lengths [OF assms] by simp
qed

lemma sum_list_int_length: "sum_list (map (\<lambda>x. int (length x)) xs) = int (sum_list (map length xs))"
  by (induction xs) simp_all

text \<open>On a matrix that fits, the conversions to \<^verbatim>\<open>np.intc\<close> change nothing.\<close>

lemma fits_intc_lengths:
  assumes "fits_intc A"
  shows "map (\<lambda>x. intc (int (length x))) (rows A) = map (\<lambda>x. int (length x)) (rows A)"
proof (rule map_cong [OF refl])
  fix row assume "row \<in> set (rows A)"
  with assms have "int (length row) < 2 ^ 31" by (simp add: fits_intc_def)
  then show "intc (int (length row)) = int (length row)" by (intro intc_id) simp_all
qed

lemma fits_intc_indices:
  assumes "fits_intc A"
  shows "map intc (concat (rows A)) = concat (rows A)"
proof -
  have same: "intc j = j" if "j \<in> set (concat (rows A))" for j
  proof -
    from that obtain row where "row \<in> set (rows A)" "j \<in> set row" by auto
    with assms have "- (2 ^ 31) \<le> j" "j < 2 ^ 31" by (auto simp: fits_intc_def)
    then show ?thesis by (rule intc_id)
  qed
  show ?thesis by (rule map_idI) (rule same)
qed

lemma example_3x3:
  "set_seq (lil_empty (3, 3) :: real lil_matrix) [(0, 0, 1), (0, 2, 3), (1, 1, 2)] =
     Inr \<lparr>shape = (3, 3), rows = [[0, 2], [1], []], data = [[1, 3], [2], []]\<rparr>"
  by (simp add: set_elem_set_at set_at_def np_index_def lil_empty_def insertat2_def
      bisect_left_def bisect_loop.simps list_insert_def numeral_3_eq_3)

text \<open>
  C3, as the code has it. \<open>tocsr\<close> hands over an \<open>indptr\<close> array of one more entry than
  there are rows, starting at 0, and the concatenation of the value lists. For a matrix
  whose column indices and row lengths are in the range of a C int and whose number of
  stored entries is in the range of the platform integer, \<open>indptr\<close> grows by the length of
  each row's column list, so that its entry \<open>M\<close> is the number of stored values of a
  well-formed matrix, and \<open>indices\<close> is the concatenation of the column lists. On the empty
  3x3 matrix after \<open>set(0,0,1.0)\<close>, \<open>set(0,2,3.0)\<close>, \<open>set(1,1,2.0)\<close> the count is 3
  and the arrays are \<open>[0,2,3,3]\<close>, \<open>[0,2,1]\<close> and \<open>[1.0,3.0,2.0]\<close>.
\<close>

theorem tocsr_arrays:
  fixes A :: "'a::zero lil_matrix"
  shows "length (csr_indptr (tocsr A)) = length (rows A) + 1 \<and>
         csr_indptr (tocsr A) ! 0 = 0 \<and>
         csr_data (tocsr A) = concat (data A) \<and>
         (fits_intc A \<longrightarrow>
            (\<forall>i < length (rows A).
               csr_indptr (tocsr A) ! (i + 1) = csr_indptr (tocsr A) ! i + int (length (rows A ! i))) \<and>
            csr_indices (tocsr A) = concat (rows A) \<and>
            (lil_inv A \<longrightarrow> csr_indptr (tocsr A) ! fst (shape A) = int (getnnz A))) \<and>
         (\<exists>B. set_seq (lil_empty (3, 3) :: real lil_matrix) [(0, 0, 1), (0, 2, 3), (1, 1, 2)] = Inr B \<and>
              getnnz B = 3 \<and>
              tocsr B = \<lparr>csr_data = [1, 3, 2], csr_indices = [0, 2, 1],
                         csr_indptr = [0, 2, 3, 3], csr_shape = (3, 3)\<rparr>)"
proof -
  let ?ls = "map (\<lambda>x. int (length x)) (rows A)"
  have a: "length (csr_indptr (tocsr A)) = length (rows A) + 1" by (simp add: tocsr_def)
  have b: "csr_indptr (tocsr A) ! 0 = 0" by (simp add: tocsr_def)
  have e: "csr_data (tocsr A) = concat (data A)" by (simp add: tocsr_def)
  have f: "fits_intc A \<longrightarrow>
            (\<forall>i < length (rows A).
               csr_indptr (tocsr A) ! (i + 1) = csr_indptr (tocsr A) ! i + int (length (rows A ! i))) \<and>
            csr_indices (tocsr A) = concat (rows A) \<and>
            (lil_inv A \<longrightarrow> csr_indptr (tocsr A) ! fst (shape A) = int (getnnz A))"
  proof
    assume fit: "fits_intc A"
    have p: "csr_indptr (tocsr A) = 0 # cumsum 0 ?ls"
      by (simp add: tocsr_def fits_intc_lengths [OF fit])
    have nn: "\<forall>x\<in>set ?ls. 0 \<le> x" by auto
    have tot: "0 + sum_list ?ls < 2 ^ 63"
      using fit by (simp add: fits_intc_def sum_list_int_length)
    have c: "\<forall>i < length (rows A).
            csr_indptr (tocsr A) ! (i + 1) = csr_indptr (tocsr A) ! i + int (length (rows A ! i))"
    proof (intro allI impI)
      fix i assume i: "i < length (rows A)"
      then have "i < length ?ls" by simp
      from cumsum_step [OF _ nn tot this] i
      show "csr_indptr (tocsr A) ! (i + 1) = csr_indptr (tocsr A) ! i + int (length (rows A ! i))"
        by (simp add: p)
    qed
    have d: "csr_indices (tocsr A) = concat (rows A)"
      by (simp add: tocsr_def fits_intc_indices [OF fit])
    have g: "lil_inv A \<longrightarrow> csr_indptr (tocsr A) ! fst (shape A) = int (getnnz A)"
    proof
      assume inv: "lil_inv A"
      have "(0 # cumsum 0 ?ls) ! length ?ls = 0 + sum_list ?ls"
        by (rule cumsum_last [OF _ nn tot]) simp
      then have "csr_indptr (tocsr A) ! fst (shape A) = int (sum_list (map length (rows A)))"
        using lil_inv_lengths [OF inv] by (simp add: p sum_list_int_length)
      then show "csr_indptr (tocsr A) ! fst (shape A) = int (getnnz A)"
        using lil_inv_same_lengths [OF inv] by (simp add: getnnz_def)
    qed
    from c d g show "(\<forall>i < length (rows A).
               csr_indptr (tocsr A) ! (i + 1) = csr_indptr (tocsr A) ! i + int (length (rows A ! i))) \<and>
            csr_indices (tocsr A) = concat (rows A) \<and>
            (lil_inv A \<longrightarrow> csr_indptr (tocsr A) ! fst (shape A) = int (getnnz A))"
      by blast
  qed
  have h: "\<exists>B. set_seq (lil_empty (3, 3) :: real lil_matrix) [(0, 0, 1), (0, 2, 3), (1, 1, 2)] = Inr B \<and>
              getnnz B = 3 \<and>
              tocsr B = \<lparr>csr_data = [1, 3, 2], csr_indices = [0, 2, 1],
                         csr_indptr = [0, 2, 3, 3], csr_shape = (3, 3)\<rparr>"
    unfolding example_3x3
    by (simp add: getnnz_def tocsr_def intc_def intp_def wrap_signed_def)
  from a b e f h show ?thesis by blast
qed

theorem tocsr_arrays_witness:
  "csr_indptr (tocsr \<lparr>shape = (2, 3), rows = [[0, 2], [1]], data = [[4, 5 :: int], [6]]\<rparr>) ! (0 + 1) =
     csr_indptr (tocsr \<lparr>shape = (2, 3), rows = [[0, 2], [1]], data = [[4, 5 :: int], [6]]\<rparr>) ! 0 + 2 \<and>
   csr_indices (tocsr \<lparr>shape = (2, 3), rows = [[0, 2], [1]], data = [[4, 5 :: int], [6]]\<rparr>) = [0, 2, 1] \<and>
   csr_indptr (tocsr \<lparr>shape = (2, 3), rows = [[0, 2], [1]], data = [[4, 5 :: int], [6]]\<rparr>) ! 2 = 3"
proof -
  let ?A = "\<lparr>shape = (2, 3), rows = [[0, 2], [1]], data = [[4, 5 :: int], [6]]\<rparr>"
  have inv: "lil_inv ?A" by (simp add: lil_inv_def row_ok_def)
  have fit: "fits_intc ?A" by (simp add: fits_intc_def)
  have lt: "0 < length (rows ?A)" by simp
  from tocsr_arrays [of ?A] fit
  have step: "\<forall>i < length (rows ?A).
            csr_indptr (tocsr ?A) ! (i + 1) = csr_indptr (tocsr ?A) ! i + int (length (rows ?A ! i))"
    and ind: "csr_indices (tocsr ?A) = concat (rows ?A)"
    and tot: "lil_inv ?A \<longrightarrow> csr_indptr (tocsr ?A) ! fst (shape ?A) = int (getnnz ?A)"
    by blast+
  from step lt have "csr_indptr (tocsr ?A) ! (0 + 1) = csr_indptr (tocsr ?A) ! 0 + int (length (rows ?A ! 0))"
    by blast
  moreover from tot inv have "csr_indptr (tocsr ?A) ! fst (shape ?A) = int (getnnz ?A)" by blast
  ultimately show ?thesis using ind by (simp add: getnnz_def)
qed

text \<open>
  The claim as it is written fails: a column index outside the range of a C int does not
  reach the \<open>indices\<close> array. The matrix below is well formed and its one column,
  \<open>2 ^ 31\<close>, is inside its shape; \<open>indices\<close> holds \<open>- (2 ^ 31)\<close>.
\<close>

theorem tocsr_column_outside_intc:
  "lil_inv \<lparr>shape = (1, 2147483649), rows = [[2147483648]], data = [[1 :: int]]\<rparr> \<and>
   cols_in_range \<lparr>shape = (1, 2147483649), rows = [[2147483648]], data = [[1 :: int]]\<rparr> \<and>
   concat (rows \<lparr>shape = (1, 2147483649), rows = [[2147483648]], data = [[1 :: int]]\<rparr>) =
     [2147483648] \<and>
   csr_indices (tocsr \<lparr>shape = (1, 2147483649), rows = [[2147483648]], data = [[1 :: int]]\<rparr>) =
     [- 2147483648]"
  by (simp add: lil_inv_def row_ok_def cols_in_range_def tocsr_def intc_def wrap_signed_def)

section \<open>Slices\<close>

text \<open>\<^verbatim>\<open>_slicetoseq\<close> never raises: the step it passes to \<open>range\<close> is never zero.\<close>

lemma slicetoseq_total: "\<exists>xs. slicetoseq sl E = Inr xs"
  by (simp add: slicetoseq_def py_range_def Let_def split: option.splits)

text \<open>
  C4. On an axis of extent 5 the slice with start \<open>-2\<close> starts at 3 and expands to
  \<open>3, 4\<close>. The slice with step \<open>-1\<close> and no bounds takes the default start \<open>E = 5\<close>
  (line 211 of the source) and expands to \<open>5, 4, 3, 2, 1, 0\<close>: its first index is not
  below the extent.
\<close>

theorem slicetoseq_extent_5:
  "slicetoseq (Slice (Some (- 2)) None None) 5 = Inr [3, 4] \<and>
   slicetoseq (Slice None None (Some (- 1))) 5 = Inr [5, 4, 3, 2, 1, 0] \<and>
   get1 (lil_empty (5, 5) :: int lil_matrix) 5 0 = Inl IndexError"
  by (simp add: slicetoseq_def py_range_def range_up.simps range_down.simps get1_def lil_empty_def)

section \<open>Assignment of a 1x1 right-hand side through a fancy index\<close>

text \<open>
  The branch for a dense 1x1 right-hand side does what the claim about a 1x1 right-hand side asks: on a well-formed matrix,
  when every coordinate of the index is valid, the loop with the one value \<open>v\<close> succeeds,
  every targeted entry holds \<open>v\<close> afterwards and every other entry is unchanged.
\<close>

lemma set_loop_const:
  fixes A :: "'a::zero lil_matrix"
  assumes "lil_inv A"
    and "\<forall>(ii, jj)\<in>set ps. valid (fst (shape A)) ii \<and> valid (snd (shape A)) jj"
  shows "\<exists>B. set_loop A (map (\<lambda>(ii, jj). (ii, jj, v)) ps) = Inr B \<and> lil_inv B \<and>
           shape B = shape A \<and>
           (\<forall>p q. p < fst (shape A) \<longrightarrow>
              entry B p q =
                (if \<exists>(ii, jj)\<in>set ps. p = nat (wrap (fst (shape A)) ii) \<and> q = wrap (snd (shape A)) jj
                 then v else entry A p q))"
  using assms
proof (induction ps arbitrary: A)
  case Nil
  then show ?case by simp
next
  case (Cons c ps)
  obtain ii jj where c: "c = (ii, jj)" by (cases c) auto
  let ?M = "fst (shape A)" and ?N = "snd (shape A)"
  from Cons.prems(2) c have vi: "valid ?M ii" and vj: "valid ?N jj" by auto
  from set_at_ok [OF Cons.prems(1) vi vj, of v]
  obtain A1 where s1: "set_at A ii jj (Scalar v) = Inr A1" and i1: "lil_inv A1"
    and sh1: "shape A1 = shape A"
    and e1: "\<forall>p q. p < ?M \<longrightarrow>
               entry A1 p q = (if p = nat (wrap ?M ii) \<and> q = wrap ?N jj then v else entry A p q)"
    by blast
  have rest: "\<forall>(ii, jj)\<in>set ps. valid (fst (shape A1)) ii \<and> valid (snd (shape A1)) jj"
    using Cons.prems(2) sh1 by auto
  from Cons.IH [OF i1 rest]
  obtain B where run: "set_loop A1 (map (\<lambda>(ii, jj). (ii, jj, v)) ps) = Inr B"
    and iB: "lil_inv B" and shB: "shape B = shape A1"
    and eB: "\<forall>p q. p < fst (shape A1) \<longrightarrow>
               entry B p q =
                 (if \<exists>(ii, jj)\<in>set ps. p = nat (wrap (fst (shape A1)) ii) \<and> q = wrap (snd (shape A1)) jj
                  then v else entry A1 p q)"
    by blast
  have all: "\<forall>p q. p < ?M \<longrightarrow>
              entry B p q =
                (if \<exists>(ii, jj)\<in>set (c # ps). p = nat (wrap ?M ii) \<and> q = wrap ?N jj
                 then v else entry A p q)"
  proof (intro allI impI)
    fix p q assume p: "p < ?M"
    from eB p sh1 have b: "entry B p q =
        (if \<exists>(ii, jj)\<in>set ps. p = nat (wrap ?M ii) \<and> q = wrap ?N jj then v else entry A1 p q)"
      by simp
    from e1 p have a: "entry A1 p q =
        (if p = nat (wrap ?M ii) \<and> q = wrap ?N jj then v else entry A p q)"
      by simp
    show "entry B p q =
        (if \<exists>(ii, jj)\<in>set (c # ps). p = nat (wrap ?M ii) \<and> q = wrap ?N jj then v else entry A p q)"
      unfolding b a c by auto
  qed
  from s1 run iB shB sh1 all c show ?case by auto
qed

lemma setitem_dense_1x1:
  fixes A :: "'a::zero lil_matrix"
  assumes inv: "lil_inv A" and dense: "\<not> is_sparse x" and one: "shape2 (rhs_2d x) = (1, 1)"
    and norm: "setitem_norm (shape A) i j = Inr (Some (I, J))"
    and ok: "\<forall>(ii, jj)\<in>set (zip (concat I) (concat J)).
               valid (fst (shape A)) ii \<and> valid (snd (shape A)) jj"
  shows "\<exists>B. setitem A i j x = Inr B \<and> lil_inv B \<and> shape B = shape A \<and>
           (\<forall>p q. p < fst (shape A) \<longrightarrow>
              entry B p q =
                (if \<exists>(ii, jj)\<in>set (zip (concat I) (concat J)).
                      p = nat (wrap (fst (shape A)) ii) \<and> q = wrap (snd (shape A)) jj
                 then rhs_2d x ! 0 ! 0 else entry A p q))"
proof -
  have "setitem A i j x =
      set_loop A (map (\<lambda>(ii, jj). (ii, jj, rhs_2d x ! 0 ! 0)) (zip (concat I) (concat J)))"
    using dense one norm by (cases x) (simp_all add: setitem_def)
  with set_loop_const [OF inv ok, of "rhs_2d x ! 0 ! 0"] show ?thesis by simp
qed

text \<open>
  C6. With the index \<open>([0, 1], [0, 1])\<close> on an empty 2x2 matrix, a dense 1x1
  right-hand side sets the two targeted entries; a sparse 1x1 right-hand side goes through
  the branch that passes \<^verbatim>\<open>j[jj]\<close> for the column and raises ValueError. With the
  column-vector index \<open>([[0], [1]], [[1], [0]])\<close> the sparse branch writes to \<open>(0, 0)\<close>
  and \<open>(1, 1)\<close>, where the dense one writes to the targeted \<open>(0, 1)\<close> and \<open>(1, 0)\<close>.
\<close>

theorem setitem_sparse_1x1_fancy:
  "setitem (lil_empty (2, 2) :: int lil_matrix) (ISeq [0, 1]) (ISeq [0, 1])
     (RSparse \<lparr>shape = (1, 1), rows = [[0]], data = [[5]]\<rparr>) = Inl ValueError \<and>
   setitem (lil_empty (2, 2) :: int lil_matrix) (ISeq [0, 1]) (ISeq [0, 1]) (RArr [[5]]) =
     Inr \<lparr>shape = (2, 2), rows = [[0], [1]], data = [[5], [5]]\<rparr> \<and>
   setitem (lil_empty (2, 2) :: int lil_matrix) (IArr [[0], [1]]) (IArr [[1], [0]])
     (RSparse \<lparr>shape = (1, 1), rows = [[0]], data = [[5]]\<rparr>) =
     Inr \<lparr>shape = (2, 2), rows = [[0], [1]], data = [[5], [5]]\<rparr> \<and>
   setitem (lil_empty (2, 2) :: int lil_matrix) (IArr [[0], [1]]) (IArr [[1], [0]]) (RArr [[5]]) =
     Inr \<lparr>shape = (2, 2), rows = [[1], [0]], data = [[5], [5]]\<rparr>"
  by (simp add: setitem_def setitem_norm_def broadcast_ij_def shape2_def set_at_def np_index_def
      lil_empty_def insertat2_def insertat2_arr_def add_in_place_def bisect_left_def
      bisect_loop.simps
      list_insert_def get1_def row_get_def numeral_2_eq_2)


section \<open>Reading through \<^verbatim>\<open>__getitem__\<close>\<close>

lemma ebind_eq_Inr: "ebind r f = Inr y \<longleftrightarrow> (\<exists>v. r = Inr v \<and> f v = Inr y)"
  by (cases r) simp_all

lemma map_err_Inr:
  "map_err f xs = Inr ys \<Longrightarrow> length ys = length xs \<and> (\<forall>k<length xs. f (xs ! k) = Inr (ys ! k))"
proof (induction xs arbitrary: ys)
  case Nil
  then show ?case by simp
next
  case (Cons x xs)
  from Cons.prems obtain y ys' where y: "f x = Inr y" and r: "map_err f xs = Inr ys'"
    and ys: "ys = y # ys'"
    by (auto simp: ebind_eq_Inr)
  from Cons.IH [OF r] have "length ys' = length xs" and "\<forall>k<length xs. f (xs ! k) = Inr (ys' ! k)"
    by simp_all
  then show ?case using y ys by (auto simp: nth_Cons split: nat.splits)
qed

text \<open>The dense constructor stores exactly the nonzero entries of each row.\<close>

lemma filter_by_index: "filter P r = map ((!) r) (filter (\<lambda>c. P (r ! c)) [0..<length r])"
proof -
  have "filter P (map ((!) r) [0..<length r]) = map ((!) r) (filter (P \<circ> (!) r) [0..<length r])"
    by (rule filter_map)
  then show ?thesis by (simp add: map_nth comp_def)
qed

lemma map_of_indexed:
  "map_of (map (\<lambda>c. (int c, f c)) cs) (int q) = (if q \<in> set cs then Some (f q) else None)"
  by (induction cs) auto

lemma dense_row_ok:
  fixes r :: "'a::zero list"
  shows "row_ok (map int (filter (\<lambda>c. r ! c \<noteq> 0) [0..<length r])) (filter (\<lambda>v. v \<noteq> 0) r)"
proof -
  have "sorted_wrt (<) (filter (\<lambda>c. r ! c \<noteq> 0) [0..<length r])"
    by (rule sorted_wrt_filter) (simp add: strict_sorted_iff)
  then have s: "sorted_wrt (<) (map int (filter (\<lambda>c. r ! c \<noteq> 0) [0..<length r]))"
    by (simp add: sorted_wrt_map)
  have l: "length (filter (\<lambda>v. v \<noteq> 0) r) = length (map int (filter (\<lambda>c. r ! c \<noteq> 0) [0..<length r]))"
    by (subst filter_by_index) simp
  show ?thesis unfolding row_ok_def using s l by simp
qed

lemma dense_row_val:
  fixes r :: "'a::zero list"
  assumes "q < length r"
  shows "row_val (map int (filter (\<lambda>c. r ! c \<noteq> 0) [0..<length r])) (filter (\<lambda>v. v \<noteq> 0) r) (int q) = r ! q"
proof -
  let ?cs = "filter (\<lambda>c. r ! c \<noteq> 0) [0..<length r]"
  have "zip (map int ?cs) (filter (\<lambda>v. v \<noteq> 0) r) = zip (map int ?cs) (map ((!) r) ?cs)"
    by (subst filter_by_index) simp
  also have "\<dots> = map (\<lambda>c. (int c, r ! c)) ?cs"
    by (simp add: zip_map_map zip_same_conv_map)
  finally have "map_of (zip (map int ?cs) (filter (\<lambda>v. v \<noteq> 0) r)) (int q) =
      (if q \<in> set ?cs then Some (r ! q) else None)"
    by (simp add: map_of_indexed)
  then show ?thesis using assms by (auto simp: row_val_def)
qed

lemma lil_inv_from_dense: "lil_inv (lil_from_dense D)"
  by (simp add: lil_inv_def lil_from_dense_def shape2_def list_all2_conv_all_nth dense_row_ok)

lemma get1_from_dense:
  fixes D :: "'a::zero list list"
  assumes "\<forall>r\<in>set D. length r = c" "p < length D" "q < c"
  shows "get1 (lil_from_dense D) (int p) (int q) = Inr (D ! p ! q)"
proof -
  let ?B = "lil_from_dense D"
  from assms(2) obtain r0 D' where D: "D = r0 # D'" by (cases D) auto
  with assms(1) have sh: "shape ?B = (length D, c)"
    by (simp add: lil_from_dense_def shape2_def)
  have lp: "length (D ! p) = c" using assms(1,2) by simp
  have vi: "valid (fst (shape ?B)) (int p)" using assms(2) sh by (simp add: valid_def wrap_def)
  have vj: "valid (snd (shape ?B)) (int q)" using assms(3) sh by (simp add: valid_def wrap_def)
  have "get1 ?B (int p) (int q) = Inr (entry ?B p (int q))"
    using get1_ok [OF lil_inv_from_dense vi vj] sh by (simp add: wrap_def)
  also have "entry ?B p (int q) =
      row_val (map int (filter (\<lambda>c. D ! p ! c \<noteq> 0) [0..<length (D ! p)]))
        (filter (\<lambda>v. v \<noteq> 0) (D ! p)) (int q)"
    using assms(2) by (simp add: entry_def lil_from_dense_def)
  also have "\<dots> = D ! p ! q"
    using assms(3) lp by (intro dense_row_val) simp
  finally show ?thesis .
qed

text \<open>How the normalisation ends.\<close>

lemma slice_axis_None:
  "slice_axis a E = Inr None \<longleftrightarrow> (\<exists>s. a = ISlice s \<and> slicetoseq s E = Inr [])"
  by (cases a) (auto simp: slice_axis_def ebind_eq_Inr)

lemma slice_axis_Some_A1_nonempty:
  "slice_axis (ISlice sl) E = Inr (Some a) \<Longrightarrow> \<exists>xs. a = A1 xs \<and> xs \<noteq> []"
  by (auto simp: slice_axis_def ebind_eq_Inr split: if_splits)

text \<open>The slice branch, read off case by case.\<close>

lemma getitem_norm_slice_cases:
  assumes sl: "is_slice i \<or> is_slice j"
  shows "(\<exists>e. getitem_norm s i j = Inl e) \<or>
         (getitem_norm s i j = Inr None \<and>
            (slice_axis i (fst s) = Inr None \<or> slice_axis j (snd s) = Inr None)) \<or>
         (\<exists>iv jv J. slice_axis i (fst s) = Inr (Some (A1 iv)) \<and>
            slice_axis j (snd s) = Inr (Some (A1 jv)) \<and>
            vstack_rep [jv] (length iv) = Inr J \<and>
            getitem_norm s i j = Inr (Some (True, outer_ones iv (length jv), J)))"
proof (cases "slice_axis i (fst s)")
  case (Inl e)
  then show ?thesis using sl by (simp add: getitem_norm_def)
next
  case (Inr i1)
  show ?thesis
  proof (cases i1)
    case None
    with Inr show ?thesis using sl by (simp add: getitem_norm_def)
  next
    case (Some ia)
    note ia = Inr [unfolded Some]
    show ?thesis
    proof (cases "slice_axis j (snd s)")
      case (Inl e)
      with ia show ?thesis using sl by (simp add: getitem_norm_def)
    next
      case (Inr j1)
      show ?thesis
      proof (cases j1)
        case None
        with Inr ia show ?thesis using sl by (simp add: getitem_norm_def)
      next
        case (Some ja)
        note ja = Inr [unfolded Some]
        show ?thesis
        proof (cases ia)
          case (A2 a)
          with ia ja show ?thesis using sl by (simp add: getitem_norm_def)
        next
          case (A1 iv)
          note iv = this
          show ?thesis
          proof (cases ja)
            case (A2 b)
            with ia ja iv show ?thesis using sl by (simp add: getitem_norm_def)
          next
            case (A1 jv)
            show ?thesis
            proof (cases "vstack_rep [jv] (length iv)")
              case (Inl e)
              with ia ja iv A1 show ?thesis using sl by (simp add: getitem_norm_def)
            next
              case (Inr J)
              with ia ja iv A1 show ?thesis using sl by (simp add: getitem_norm_def)
            qed
          qed
        qed
      qed
    qed
  qed
qed

lemma getitem_norm_plain:
  assumes "\<not> (is_slice i \<or> is_slice j)"
  shows "(\<exists>e. getitem_norm s i j = Inl e) \<or>
         (\<exists>I J. broadcast_ij (atleast_2d i) (atleast_2d j) = Inr (I, J) \<and>
            getitem_norm s i j = Inr (Some (False, I, J)))"
proof (cases "broadcast_ij (atleast_2d i) (atleast_2d j)")
  case (Inl e)
  then show ?thesis using assms by (simp add: getitem_norm_def)
next
  case (Inr p)
  then show ?thesis using assms by (cases p) (simp add: getitem_norm_def)
qed

lemma not_slice_axis_None: "\<not> is_slice a \<Longrightarrow> slice_axis a E \<noteq> Inr None"
  by (cases a) (simp_all add: slice_axis_def)

lemma getitem_norm_None:
  assumes "getitem_norm s i j = Inr None"
  shows "slice_axis i (fst s) = Inr None \<or> slice_axis j (snd s) = Inr None"
proof (cases "is_slice i \<or> is_slice j")
  case True
  from getitem_norm_slice_cases [OF True, of s] assms show ?thesis by auto
next
  case False
  from getitem_norm_plain [OF False, of s] assms show ?thesis by auto
qed

lemma getitem_norm_Some:
  assumes "getitem_norm s i j = Inr (Some (sm, I, J))"
  shows "sm = (is_slice i \<or> is_slice j) \<and>
         slice_axis i (fst s) \<noteq> Inr None \<and> slice_axis j (snd s) \<noteq> Inr None \<and>
         (\<not> sm \<longrightarrow> broadcast_ij (atleast_2d i) (atleast_2d j) = Inr (I, J))"
proof (cases "is_slice i \<or> is_slice j")
  case True
  from getitem_norm_slice_cases [OF True, of s] assms show ?thesis using True by auto
next
  case False
  from getitem_norm_plain [OF False, of s] assms show ?thesis
    using False not_slice_axis_None [of i "fst s"] not_slice_axis_None [of j "snd s"] by auto
qed

lemma broadcast_ij_1x1:
  assumes "broadcast_ij a b = Inr (I, J)"
  shows "(shape2 I = shape2 J \<and> shape2 I = (1, 1)) \<longleftrightarrow> (shape2 a = (1, 1) \<and> shape2 b = (1, 1))"
  using assms unfolding broadcast_ij_def
  by (auto simp: ebind_eq_Inr split: if_splits)


lemma shape2_grid:
  assumes "length D = R" "\<forall>p<R. length (D ! p) = C" "shape2 I = (R, C)"
  shows "shape2 D = shape2 I"
proof (cases D)
  case Nil
  with assms(1) have "R = 0" by simp
  with assms(3) have "I = []" by (simp add: shape2_def)
  with Nil show ?thesis by (simp add: shape2_def)
next
  case (Cons r D')
  with assms(1) have "0 < R" by auto
  with assms(2) have "length (D ! 0) = C" by blast
  with Cons assms(1,3) show ?thesis by (simp add: shape2_def)
qed

text \<open>When the read builds a matrix, the matrix reads back the values of \<open>_get1\<close>.\<close>

lemma getitem_matrix:
  fixes A :: "'a::zero lil_matrix"
  assumes norm: "getitem_norm (shape A) i j = Inr (Some (sm, I, J))"
    and br: "sm \<or> shape2 I \<noteq> (1, 1)"
    and res: "getitem A i j = Inr r"
  shows "\<exists>B. r = GMatrix B \<and> shape B = shape2 I \<and>
           (\<forall>p < fst (shape2 I). \<forall>q < snd (shape2 I).
              get1 B (int p) (int q) = get1 A (I ! p ! q) (J ! p ! q))"
proof -
  let ?R = "fst (shape2 I)" and ?C = "snd (shape2 I)"
  let ?row = "\<lambda>ii. map_err (\<lambda>jj. get1 A (I ! ii ! jj) (J ! ii ! jj)) [0..<?C]"
  from br have neg: "\<not> (shape2 I = shape2 J \<and> shape2 I = (1, 1) \<and> \<not> sm)" by auto
  have "getitem A i j =
      (if shape2 I = shape2 J \<and> shape2 I = (1, 1) \<and> \<not> sm
       then ebind (get1 A (I ! 0 ! 0) (J ! 0 ! 0)) (\<lambda>v. Inr (GValue v))
       else ebind (map_err ?row [0..<?R]) (\<lambda>D. Inr (GMatrix (lil_from_dense D))))"
    unfolding getitem_def norm by simp
  then have "getitem A i j = ebind (map_err ?row [0..<?R]) (\<lambda>D. Inr (GMatrix (lil_from_dense D)))"
    unfolding if_not_P [OF neg] .
  with res have "ebind (map_err ?row [0..<?R]) (\<lambda>D. Inr (GMatrix (lil_from_dense D))) = Inr r"
    by simp
  then obtain D where D: "map_err ?row [0..<?R] = Inr D" and r: "r = GMatrix (lil_from_dense D)"
    by (auto simp: ebind_eq_Inr)
  from map_err_Inr [OF D] have lD: "length D = ?R" and rows: "\<forall>p<?R. ?row p = Inr (D ! p)"
    by simp_all
  have cell: "length (D ! p) = ?C \<and> (\<forall>q<?C. get1 A (I ! p ! q) (J ! p ! q) = Inr (D ! p ! q))"
    if "p < ?R" for p
  proof -
    from rows that have "?row p = Inr (D ! p)" by blast
    from map_err_Inr [OF this] show ?thesis by simp
  qed
  have sh: "shape (lil_from_dense D) = shape2 I"
  proof -
    have "shape2 D = shape2 I"
      by (rule shape2_grid [OF lD]) (use cell in auto)
    then show ?thesis by (simp add: lil_from_dense_def)
  qed
  have all_len: "\<forall>row\<in>set D. length row = ?C"
  proof
    fix row assume "row \<in> set D"
    then obtain p where "p < length D" "D ! p = row" by (auto simp: in_set_conv_nth)
    with cell lD show "length row = ?C" by auto
  qed
  have "get1 (lil_from_dense D) (int p) (int q) = get1 A (I ! p ! q) (J ! p ! q)"
    if "p < ?R" "q < ?C" for p q
  proof -
    have "get1 (lil_from_dense D) (int p) (int q) = Inr (D ! p ! q)"
      using get1_from_dense [OF all_len] that lD by simp
    with cell [OF that(1)] that(2) show ?thesis by simp
  qed
  with r sh show ?thesis by blast
qed

text \<open>
  C5, as the code has it. A read that succeeds returns
  \<^item> a bare scalar exactly when neither axis is a slice and both index parts have the
    shape 1x1 after \<^verbatim>\<open>np.atleast_2d\<close> (an integer, a one-element sequence or a 1x1
    array on each axis);
  \<^item> nothing (None) exactly when an axis is a slice that expands to no index;
  \<^item> and otherwise, that is whenever the coordinate arrays \<open>I\<close>, \<open>J\<close> exist and either an
    axis was a slice (also for a 1x1 result) or their shape is not 1x1, a new matrix of the
    shape of \<open>I\<close> whose entry at each position \<open>(p, q)\<close> is \<open>get(I[p,q], J[p,q])\<close>.
\<close>

theorem getitem_result_kinds:
  fixes A :: "'a::zero lil_matrix"
  assumes "getitem A i j = Inr r"
  shows "((\<exists>v. r = GValue v) \<longleftrightarrow>
            \<not> is_slice i \<and> \<not> is_slice j \<and>
            shape2 (atleast_2d i) = (1, 1) \<and> shape2 (atleast_2d j) = (1, 1)) \<and>
         (r = GNone \<longleftrightarrow>
            (\<exists>s. i = ISlice s \<and> slicetoseq s (fst (shape A)) = Inr []) \<or>
            (\<exists>s. j = ISlice s \<and> slicetoseq s (snd (shape A)) = Inr [])) \<and>
         (\<forall>sm I J. getitem_norm (shape A) i j = Inr (Some (sm, I, J)) \<and> (sm \<or> shape2 I \<noteq> (1, 1)) \<longrightarrow>
            (\<exists>B. r = GMatrix B \<and> shape B = shape2 I \<and>
               (\<forall>p < fst (shape2 I). \<forall>q < snd (shape2 I).
                  get1 B (int p) (int q) = get1 A (I ! p ! q) (J ! p ! q))))"
proof -
  from assms obtain n where norm: "getitem_norm (shape A) i j = Inr n"
    by (auto simp: getitem_def ebind_eq_Inr)
  have third: "\<forall>sm I J. getitem_norm (shape A) i j = Inr (Some (sm, I, J)) \<and> (sm \<or> shape2 I \<noteq> (1, 1)) \<longrightarrow>
            (\<exists>B. r = GMatrix B \<and> shape B = shape2 I \<and>
               (\<forall>p < fst (shape2 I). \<forall>q < snd (shape2 I).
                  get1 B (int p) (int q) = get1 A (I ! p ! q) (J ! p ! q)))"
    using getitem_matrix [OF _ _ assms] by blast
  show ?thesis
  proof (cases n)
    case None
    with norm assms have r: "r = GNone" by (simp add: getitem_def)
    from getitem_norm_None [OF norm [unfolded None]]
    have e: "(\<exists>s. i = ISlice s \<and> slicetoseq s (fst (shape A)) = Inr []) \<or>
             (\<exists>s. j = ISlice s \<and> slicetoseq s (snd (shape A)) = Inr [])"
      by (simp add: slice_axis_None)
    then have "is_slice i \<or> is_slice j" by auto
    with r e third show ?thesis by auto
  next
    case (Some t)
    obtain sm I J where t: "t = (sm, I, J)" by (cases t) auto
    note n = norm [unfolded Some t]
    from getitem_norm_Some [OF n]
    have sm: "sm = (is_slice i \<or> is_slice j)"
      and ni: "slice_axis i (fst (shape A)) \<noteq> Inr None"
      and nj: "slice_axis j (snd (shape A)) \<noteq> Inr None"
      and bc: "\<not> sm \<longrightarrow> broadcast_ij (atleast_2d i) (atleast_2d j) = Inr (I, J)"
      by blast+
    have e: "\<not> ((\<exists>s. i = ISlice s \<and> slicetoseq s (fst (shape A)) = Inr []) \<or>
                (\<exists>s. j = ISlice s \<and> slicetoseq s (snd (shape A)) = Inr []))"
      using ni nj by (simp add: slice_axis_None)
    let ?X = "ebind (get1 A (I ! 0 ! 0) (J ! 0 ! 0)) (\<lambda>v. Inr (GValue v))"
    let ?Y = "ebind (map_err (\<lambda>ii. map_err (\<lambda>jj. get1 A (I ! ii ! jj) (J ! ii ! jj))
                                     [0..<snd (shape2 I)]) [0..<fst (shape2 I)])
                (\<lambda>D. Inr (GMatrix (lil_from_dense D)))"
    have unf: "getitem A i j =
        (if shape2 I = shape2 J \<and> shape2 I = (1, 1) \<and> \<not> sm then ?X else ?Y)"
      unfolding getitem_def n by simp
    show ?thesis
    proof (cases "shape2 I = shape2 J \<and> shape2 I = (1, 1) \<and> \<not> sm")
      case True
      have "getitem A i j = ?X" unfolding unf if_P [OF True] ..
      with assms obtain v where r: "r = GValue v"
        by (auto simp: ebind_eq_Inr)
      from True bc have "broadcast_ij (atleast_2d i) (atleast_2d j) = Inr (I, J)" by simp
      from broadcast_ij_1x1 [OF this] True
      have "shape2 (atleast_2d i) = (1, 1) \<and> shape2 (atleast_2d j) = (1, 1)" by blast
      with r True sm e third show ?thesis by auto
    next
      case False
      have "getitem A i j = ?Y" unfolding unf if_not_P [OF False] ..
      with assms obtain D where r: "r = GMatrix (lil_from_dense D)"
        by (auto simp: ebind_eq_Inr)
      have "\<not> (\<not> is_slice i \<and> \<not> is_slice j \<and>
            shape2 (atleast_2d i) = (1, 1) \<and> shape2 (atleast_2d j) = (1, 1))"
      proof
        assume a: "\<not> is_slice i \<and> \<not> is_slice j \<and>
            shape2 (atleast_2d i) = (1, 1) \<and> shape2 (atleast_2d j) = (1, 1)"
        with sm have nsm: "\<not> sm" by simp
        with bc have "broadcast_ij (atleast_2d i) (atleast_2d j) = Inr (I, J)" by simp
        from broadcast_ij_1x1 [OF this] a have "shape2 I = shape2 J \<and> shape2 I = (1, 1)" by blast
        with nsm False show False by blast
      qed
      with r e third show ?thesis by auto
    qed
  qed
qed

theorem getitem_result_kinds_witness:
  "\<exists>B. getitem \<lparr>shape = (2, 2), rows = [[0], [1]], data = [[3 :: int], [4]]\<rparr>
          (ISlice (Slice (Some 0) (Some 1) None)) (IScalar 0) = Inr (GMatrix B) \<and>
        shape B = (1, 1) \<and>
        get1 B 0 0 = get1 \<lparr>shape = (2, 2), rows = [[0], [1]], data = [[3 :: int], [4]]\<rparr> 0 0"
proof -
  let ?A = "\<lparr>shape = (2, 2), rows = [[0], [1]], data = [[3 :: int], [4]]\<rparr>"
  let ?i = "ISlice (Slice (Some 0) (Some 1) None)" and ?j = "IScalar 0"
  have n: "getitem_norm (shape ?A) ?i ?j = Inr (Some (True, [[0]], [[0]]))"
    by (simp add: getitem_norm_def slice_axis_def slicetoseq_def py_range_def range_up.simps
        vstack_rep_def outer_ones_def)
  have g: "getitem ?A ?i ?j = Inr (GMatrix (lil_from_dense [[3]]))"
    unfolding getitem_def n
    by (simp add: shape2_def get1_def np_index_def row_get_def bisect_left_def bisect_loop.simps)
  from getitem_result_kinds [OF g]
  have "\<forall>sm I J. getitem_norm (shape ?A) ?i ?j = Inr (Some (sm, I, J)) \<and> (sm \<or> shape2 I \<noteq> (1, 1)) \<longrightarrow>
            (\<exists>B. GMatrix (lil_from_dense [[3 :: int]]) = GMatrix B \<and> shape B = shape2 I \<and>
               (\<forall>p < fst (shape2 I). \<forall>q < snd (shape2 I).
                  get1 B (int p) (int q) = get1 ?A (I ! p ! q) (J ! p ! q)))"
    by blast
  with n obtain B where B: "GMatrix (lil_from_dense [[3 :: int]]) = GMatrix B"
    "shape B = shape2 [[0 :: int]]"
    "\<forall>p < fst (shape2 [[0 :: int]]). \<forall>q < snd (shape2 [[0 :: int]]).
        get1 B (int p) (int q) = get1 ?A ([[0]] ! p ! q) ([[0]] ! p ! q)"
    by blast
  from B(3) have "get1 B (int 0) (int 0) = get1 ?A ([[0]] ! 0 ! 0) ([[0]] ! 0 ! 0)"
    by (simp add: shape2_def)
  then have "get1 B 0 0 = get1 ?A 0 0" by simp
  moreover from B(2) have "shape B = (1, 1)" by (simp add: shape2_def)
  ultimately show ?thesis using g B(1) by auto
qed

text \<open>
  The claim as it is written fails: with the one-element sequence \<open>[0]\<close> for the rows
  the read returns a bare scalar, and with a slice that expands to nothing it returns
  None, not a matrix.
\<close>

theorem getitem_sequence_returns_scalar:
  "getitem \<lparr>shape = (2, 2), rows = [[0], [1]], data = [[3 :: int], [4]]\<rparr> (ISeq [0]) (IScalar 0) =
     Inr (GValue 3) \<and>
   getitem \<lparr>shape = (2, 2), rows = [[0], [1]], data = [[3 :: int], [4]]\<rparr>
     (ISlice (Slice (Some 0) (Some 0) None)) (IScalar 0) = Inr GNone"
  by (simp add: getitem_def getitem_norm_def broadcast_ij_def shape2_def get1_def np_index_def
      row_get_def bisect_left_def bisect_loop.simps slice_axis_def slicetoseq_def py_range_def
      range_up.simps)


section \<open>Reshape\<close>

lemma flat_unique:
  fixes N j j' :: int
  assumes "0 \<le> j" "j < N" "0 \<le> j'" "j' < N" "int i * N + j = int i' * N + j'"
  shows "i = i' \<and> j = j'"
proof -
  have "(int i * N + j) div N = int i" using assms(1,2) by simp
  moreover have "(int i' * N + j') div N = int i'" using assms(3,4) by simp
  ultimately have "int i = int i'" using assms(5) by simp
  then show ?thesis using assms(5) by simp
qed

lemma flat_split:
  fixes f :: int
  assumes "0 \<le> f" "f < int (M' * N')"
  shows "0 < N'" and "nat (f div int N') < M'" and "0 \<le> f div int N'"
    and "0 \<le> f mod int N'" and "f mod int N' < int N'"
    and "f = int (nat (f div int N')) * int N' + f mod int N'"
proof -
  show pos: "0 < N'" using assms by (cases "N' = 0") auto
  show nn: "0 \<le> f div int N'" using assms(1) pos by (simp add: pos_imp_zdiv_nonneg_iff)
  have "f div int N' < int M'"
  proof (rule ccontr)
    assume "\<not> f div int N' < int M'"
    then have "int M' \<le> f div int N'" by simp
    then have a: "int M' * int N' \<le> (f div int N') * int N'" by (rule mult_right_mono) simp
    have "(f div int N') * int N' + f mod int N' = f" by simp
    moreover have "0 \<le> f mod int N'" using pos by simp
    ultimately have "(f div int N') * int N' \<le> f" by linarith
    with a show False using assms(2) by simp
  qed
  then show "nat (f div int N') < M'" using nn by simp
  show "0 \<le> f mod int N'" using pos by simp
  show "f mod int N' < int N'" using pos by simp
  show "f = int (nat (f div int N')) * int N' + f mod int N'" using nn by simp
qed

lemma get_ok:
  assumes "lil_inv A" "i < fst (shape A)" "0 \<le> j" "j < int (snd (shape A))"
  shows "get A (int i) j = Inr (GValue (entry A i j))"
proof -
  have vi: "valid (fst (shape A)) (int i)" using assms(2) by (simp add: valid_def wrap_def)
  have vj: "valid (snd (shape A)) j" using assms(3,4) by (simp add: valid_def wrap_def)
  from get1_ok [OF assms(1) vi vj] assms(3) show ?thesis
    by (simp add: get_get1 wrap_def)
qed

text \<open>One turn of the loop, for an entry whose flat coordinate fits the new shape.\<close>

lemma reshape_step:
  fixes A new :: "'a::zero lil_matrix"
  assumes invA: "lil_inv A" and invn: "lil_inv new" and sh: "shape new = s"
    and i: "i < fst (shape A)" and j: "0 \<le> j" "j < int (snd (shape A))"
    and f: "flat_index A i j < int (fst s * snd s)"
  shows "\<exists>new1. reshape_loop A new s ((i, j) # ps) = reshape_loop A new1 s ps \<and>
           lil_inv new1 \<and> shape new1 = s \<and>
           (\<forall>p q. p < fst s \<longrightarrow>
              entry new1 p q =
                (if p = nat (flat_index A i j div int (snd s)) \<and> q = flat_index A i j mod int (snd s)
                 then entry A i j else entry new p q))"
proof -
  let ?f = "flat_index A i j"
  let ?r = "?f div int (snd s)" and ?c = "?f mod int (snd s)"
  have f0: "0 \<le> ?f" using j(1) by (simp add: flat_index_def)
  note fs = flat_split [OF f0 f]
  have un: "unravel_index ?f s = Inr (?r, ?c)" using f0 f by (simp add: unravel_index_def)
  have vr: "valid (fst (shape new)) ?r" using fs(2,3) sh by (simp add: valid_def wrap_def)
  have vc: "valid (snd (shape new)) ?c" using fs(4,5) sh by (simp add: valid_def wrap_def)
  from set_at_ok [OF invn vr vc, of "entry A i j"]
  obtain new1 where s1: "set_at new ?r ?c (Scalar (entry A i j)) = Inr new1"
    and inv1: "lil_inv new1" and sh1: "shape new1 = shape new"
    and ent: "\<forall>p q. p < fst (shape new) \<longrightarrow>
                entry new1 p q = (if p = nat (wrap (fst (shape new)) ?r) \<and> q = wrap (snd (shape new)) ?c
                                  then entry A i j else entry new p q)"
    by blast
  have w: "wrap (fst (shape new)) ?r = ?r" "wrap (snd (shape new)) ?c = ?c"
    using fs(3,4) by (simp_all add: wrap_def)
  have "reshape_loop A new s ((i, j) # ps) = reshape_loop A new1 s ps"
    using un get_ok [OF invA i j] s1 by (simp add: flat_index_def set_elem_set_at)
  moreover have "\<forall>p q. p < fst s \<longrightarrow>
              entry new1 p q = (if p = nat ?r \<and> q = ?c then entry A i j else entry new p q)"
    using ent w sh by simp
  ultimately show ?thesis using inv1 sh1 sh by blast
qed


text \<open>The whole loop, when every entry it visits fits the new shape.\<close>

lemma reshape_loop_ok:
  fixes A new :: "'a::zero lil_matrix"
  assumes invA: "lil_inv A" and invn: "lil_inv new" and sh: "shape new = s"
    and ps: "\<forall>(i, j)\<in>set ps. i < fst (shape A) \<and> 0 \<le> j \<and> j < int (snd (shape A)) \<and>
                flat_index A i j < int (fst s * snd s)"
  shows "\<exists>B. reshape_loop A new s ps = Inr B \<and> lil_inv B \<and> shape B = s \<and>
           (\<forall>(i, j)\<in>set ps.
              entry B (nat (flat_index A i j div int (snd s))) (flat_index A i j mod int (snd s)) =
                entry A i j) \<and>
           (\<forall>p q. p < fst s \<and> 0 \<le> q \<and> q < int (snd s) \<and>
                  (\<forall>(i, j)\<in>set ps. flat_index A i j \<noteq> int p * int (snd s) + q) \<longrightarrow>
              entry B p q = entry new p q)"
  using invn sh ps
proof (induction ps arbitrary: new)
  case Nil
  then show ?case by simp
next
  case (Cons ij ps)
  obtain i j where ij: "ij = (i, j)" by (cases ij) auto
  let ?f = "flat_index A i j"
  let ?r = "nat (?f div int (snd s))" and ?c = "?f mod int (snd s)"
  from Cons.prems(3) ij have i: "i < fst (shape A)" and j: "0 \<le> j" "j < int (snd (shape A))"
    and f: "?f < int (fst s * snd s)" by auto
  have f0: "0 \<le> ?f" using j(1) by (simp add: flat_index_def)
  note fs = flat_split [OF f0 f]
  from reshape_step [OF invA Cons.prems(1,2) i j f, of ps]
  obtain new1 where step: "reshape_loop A new s ((i, j) # ps) = reshape_loop A new1 s ps"
    and inv1: "lil_inv new1" and sh1: "shape new1 = s"
    and ent1: "\<forall>p q. p < fst s \<longrightarrow>
                 entry new1 p q = (if p = ?r \<and> q = ?c then entry A i j else entry new p q)"
    by blast
  have rest: "\<forall>(i, j)\<in>set ps. i < fst (shape A) \<and> 0 \<le> j \<and> j < int (snd (shape A)) \<and>
                flat_index A i j < int (fst s * snd s)"
    using Cons.prems(3) by auto
  from Cons.IH [OF inv1 sh1 rest]
  obtain B where run: "reshape_loop A new1 s ps = Inr B" and invB: "lil_inv B" and shB: "shape B = s"
    and hit: "\<forall>(i, j)\<in>set ps.
                entry B (nat (flat_index A i j div int (snd s))) (flat_index A i j mod int (snd s)) =
                  entry A i j"
    and miss: "\<forall>p q. p < fst s \<and> 0 \<le> q \<and> q < int (snd s) \<and>
                  (\<forall>(i, j)\<in>set ps. flat_index A i j \<noteq> int p * int (snd s) + q) \<longrightarrow>
                entry B p q = entry new1 p q"
    by blast
  have head: "entry B ?r ?c = entry A i j"
  proof (cases "\<forall>(i', j')\<in>set ps. flat_index A i' j' \<noteq> int ?r * int (snd s) + ?c")
    case True
    with miss fs(2,4,5) have "entry B ?r ?c = entry new1 ?r ?c" by blast
    with ent1 fs(2) show ?thesis by simp
  next
    case False
    then obtain i' j' where m: "(i', j') \<in> set ps" and e: "flat_index A i' j' = int ?r * int (snd s) + ?c"
      by auto
    from e fs(6) have "flat_index A i' j' = ?f" by simp
    moreover from rest m have "0 \<le> j'" "j' < int (snd (shape A))" by auto
    ultimately have "i' = i \<and> j' = j"
      using flat_unique [of j' "int (snd (shape A))" j i' i] j by (simp add: flat_index_def)
    with m hit show ?thesis by auto
  qed
  have hits: "\<forall>(i, j)\<in>set (ij # ps).
              entry B (nat (flat_index A i j div int (snd s))) (flat_index A i j mod int (snd s)) =
                entry A i j"
    using head hit ij by auto
  have misses: "\<forall>p q. p < fst s \<and> 0 \<le> q \<and> q < int (snd s) \<and>
                  (\<forall>(i, j)\<in>set (ij # ps). flat_index A i j \<noteq> int p * int (snd s) + q) \<longrightarrow>
                entry B p q = entry new p q"
  proof (intro allI impI)
    fix p q
    assume a: "p < fst s \<and> 0 \<le> q \<and> q < int (snd s) \<and>
                  (\<forall>(i, j)\<in>set (ij # ps). flat_index A i j \<noteq> int p * int (snd s) + q)"
    then have nf: "?f \<noteq> int p * int (snd s) + q" using ij by auto
    from a have "\<forall>(i, j)\<in>set ps. flat_index A i j \<noteq> int p * int (snd s) + q" by auto
    with a miss have "entry B p q = entry new1 p q" by blast
    moreover have "\<not> (p = ?r \<and> q = ?c)" using nf fs(6) by auto
    ultimately show "entry B p q = entry new p q" using ent1 a by simp
  qed
  from step run invB shB hits misses ij show ?case by auto
qed

text \<open>The loop stops with ValueError at the first entry that does not fit.\<close>

lemma reshape_loop_fail:
  fixes A new :: "'a::zero lil_matrix"
  assumes invA: "lil_inv A" and invn: "lil_inv new" and sh: "shape new = s"
    and ps: "\<forall>(i, j)\<in>set ps. i < fst (shape A) \<and> 0 \<le> j \<and> j < int (snd (shape A))"
    and bad: "\<exists>(i, j)\<in>set ps. \<not> flat_index A i j < int (fst s * snd s)"
  shows "reshape_loop A new s ps = Inl ValueError"
  using invn sh ps bad
proof (induction ps arbitrary: new)
  case Nil
  then show ?case by simp
next
  case (Cons ij ps)
  obtain i j where ij: "ij = (i, j)" by (cases ij) auto
  from Cons.prems(3) ij have i: "i < fst (shape A)" and j: "0 \<le> j" "j < int (snd (shape A))" by auto
  show ?case
  proof (cases "flat_index A i j < int (fst s * snd s)")
    case False
    then show ?thesis using ij by (simp add: unravel_index_def flat_index_def)
  next
    case True
    from reshape_step [OF invA Cons.prems(1,2) i j True, of ps]
    obtain new1 where step: "reshape_loop A new s ((i, j) # ps) = reshape_loop A new1 s ps"
      and inv1: "lil_inv new1" and sh1: "shape new1 = s" by blast
    have rest: "\<forall>(i, j)\<in>set ps. i < fst (shape A) \<and> 0 \<le> j \<and> j < int (snd (shape A))"
      using Cons.prems(3) by auto
    have bad': "\<exists>(i, j)\<in>set ps. \<not> flat_index A i j < int (fst s * snd s)"
      using Cons.prems(4) True ij by auto
    from Cons.IH [OF inv1 sh1 rest bad'] step ij show ?thesis by simp
  qed
qed

lemma stored_coords_iff:
  "(i, j) \<in> set (stored_coords A) \<longleftrightarrow> i < length (rows A) \<and> j \<in> set (rows A ! i)"
  by (auto simp: stored_coords_def)

lemma stored_in_range:
  assumes "lil_inv A" "cols_in_range A" "(i, j) \<in> set (stored_coords A)"
  shows "i < fst (shape A) \<and> 0 \<le> j \<and> j < int (snd (shape A))"
proof -
  from assms(3) have i: "i < length (rows A)" and j: "j \<in> set (rows A ! i)"
    by (simp_all add: stored_coords_iff)
  from i have "rows A ! i \<in> set (rows A)" by simp
  with assms(2) j have "0 \<le> j \<and> j < int (snd (shape A))" by (auto simp: cols_in_range_def)
  with i lil_inv_lengths [OF assms(1)] show ?thesis by simp
qed


lemma entry_empty: "p < fst s \<Longrightarrow> entry (lil_empty s) p q = 0"
  by (simp add: entry_def lil_empty_def)

lemma same_count_fits:
  assumes "lil_inv A" "cols_in_range A" "fst (shape A) * snd (shape A) = fst s * snd s"
  shows "fits A s"
  unfolding fits_def
proof (intro allI impI ballI)
  fix i j assume i: "i < length (rows A)" and j: "j \<in> set (rows A ! i)"
  then have "(i, j) \<in> set (stored_coords A)" by (simp add: stored_coords_iff)
  from stored_in_range [OF assms(1,2) this]
  have iM: "i < fst (shape A)" and jr: "0 \<le> j" "j < int (snd (shape A))" by simp_all
  from iM have "Suc i * snd (shape A) \<le> fst (shape A) * snd (shape A)"
    by (intro mult_le_mono1) simp
  then have "Suc i * snd (shape A) \<le> fst s * snd s" using assms(3) by simp
  then have "int (Suc i * snd (shape A)) \<le> int (fst s * snd s)" by (simp only: of_nat_le_iff)
  moreover have "flat_index A i j < int (Suc i * snd (shape A))"
    using jr(2) by (simp add: flat_index_def algebra_simps)
  ultimately show "flat_index A i j < int (fst s * snd s)" by linarith
qed

text \<open>
  C7, as the code has it. \<open>reshape\<close> never compares element counts. On a well-formed
  matrix whose stored columns are in range:
  \<^item> when the flat coordinate \<open>i*N + j\<close> of every stored entry is below the new total
    (as it always is when the counts match), it returns a fresh well-formed matrix of the
    new shape in which the entry at each old flat coordinate below the new total appears
    at the same flat coordinate;
  \<^item> otherwise it fails with the ValueError of \<^verbatim>\<open>np.unravel_index\<close>.
\<close>

theorem reshape_result:
  fixes A :: "'a::zero lil_matrix"
  assumes "lil_inv A" "cols_in_range A"
  shows "(fits A s \<longrightarrow>
            (\<exists>B. reshape A s = Inr B \<and> shape B = s \<and> lil_inv B \<and>
               (\<forall>i j. i < fst (shape A) \<and> 0 \<le> j \<and> j < int (snd (shape A)) \<and>
                      flat_index A i j < int (fst s * snd s) \<longrightarrow>
                  get B (flat_index A i j div int (snd s)) (flat_index A i j mod int (snd s)) =
                    get A (int i) j))) \<and>
         (\<not> fits A s \<longrightarrow> reshape A s = Inl ValueError) \<and>
         (fst (shape A) * snd (shape A) = fst s * snd s \<longrightarrow> fits A s)"
proof (intro conjI impI)
  assume fit: "fits A s"
  have ps: "\<forall>(i, j)\<in>set (stored_coords A). i < fst (shape A) \<and> 0 \<le> j \<and> j < int (snd (shape A)) \<and>
                flat_index A i j < int (fst s * snd s)"
  proof (clarify)
    fix i j assume m: "(i, j) \<in> set (stored_coords A)"
    from stored_in_range [OF assms m] fit m
    show "i < fst (shape A) \<and> 0 \<le> j \<and> j < int (snd (shape A)) \<and>
          flat_index A i j < int (fst s * snd s)"
      by (simp add: fits_def stored_coords_iff)
  qed
  have sh0: "shape (lil_empty s :: 'a lil_matrix) = s" by (simp add: lil_empty_def)
  from reshape_loop_ok [OF assms(1) lil_inv_empty sh0 ps]
  obtain B where run: "reshape A s = Inr B" and invB: "lil_inv B" and shB: "shape B = s"
    and hit: "\<forall>(i, j)\<in>set (stored_coords A).
                entry B (nat (flat_index A i j div int (snd s))) (flat_index A i j mod int (snd s)) =
                  entry A i j"
    and miss: "\<forall>p q. p < fst s \<and> 0 \<le> q \<and> q < int (snd s) \<and>
                  (\<forall>(i, j)\<in>set (stored_coords A). flat_index A i j \<noteq> int p * int (snd s) + q) \<longrightarrow>
                entry B p q = entry (lil_empty s :: 'a lil_matrix) p q"
    unfolding reshape_def by blast
  have same: "get B (flat_index A i j div int (snd s)) (flat_index A i j mod int (snd s)) =
                get A (int i) j"
    if c: "i < fst (shape A) \<and> 0 \<le> j \<and> j < int (snd (shape A)) \<and>
           flat_index A i j < int (fst s * snd s)" for i j
  proof -
    let ?f = "flat_index A i j"
    let ?r = "nat (?f div int (snd s))" and ?c = "?f mod int (snd s)"
    from c have f0: "0 \<le> ?f" by (simp add: flat_index_def)
    from c have f: "?f < int (fst s * snd s)" by simp
    note fs = flat_split [OF f0 f]
    have old: "get A (int i) j = Inr (GValue (entry A i j))"
      using get_ok [OF assms(1)] c by simp
    have "get B (int ?r) ?c = Inr (GValue (entry B ?r ?c))"
      using get_ok [OF invB, of ?r ?c] fs(2,4,5) shB by simp
    then have new: "get B (?f div int (snd s)) ?c = Inr (GValue (entry B ?r ?c))"
      using fs(3) by simp
    have "entry B ?r ?c = entry A i j"
    proof (cases "(i, j) \<in> set (stored_coords A)")
      case True
      with hit show ?thesis by auto
    next
      case False
      have iM: "i < length (rows A)" using c lil_inv_lengths [OF assms(1)] by simp
      with False have "j \<notin> set (rows A ! i)" by (simp add: stored_coords_iff)
      then have zero: "entry A i j = 0" unfolding entry_def by (rule row_val_notin)
      have "\<forall>(i', j')\<in>set (stored_coords A). flat_index A i' j' \<noteq> int ?r * int (snd s) + ?c"
      proof (clarify)
        fix i' j' assume m: "(i', j') \<in> set (stored_coords A)"
          and e: "flat_index A i' j' = int ?r * int (snd s) + ?c"
        from e fs(6) have "flat_index A i' j' = ?f" by simp
        moreover from stored_in_range [OF assms m] have "0 \<le> j'" "j' < int (snd (shape A))"
          by simp_all
        ultimately have "i' = i \<and> j' = j"
          using flat_unique [of j' "int (snd (shape A))" j i' i] c by (simp add: flat_index_def)
        with m False show False by simp
      qed
      with miss fs(2,4,5) have "entry B ?r ?c = entry (lil_empty s :: 'a lil_matrix) ?r ?c"
        by blast
      with zero fs(2) show ?thesis by (simp add: entry_empty)
    qed
    with old new show ?thesis by simp
  qed
  from run shB invB same
  show "\<exists>B. reshape A s = Inr B \<and> shape B = s \<and> lil_inv B \<and>
               (\<forall>i j. i < fst (shape A) \<and> 0 \<le> j \<and> j < int (snd (shape A)) \<and>
                      flat_index A i j < int (fst s * snd s) \<longrightarrow>
                  get B (flat_index A i j div int (snd s)) (flat_index A i j mod int (snd s)) =
                    get A (int i) j)"
    by blast
next
  assume nf: "\<not> fits A s"
  have ps: "\<forall>(i, j)\<in>set (stored_coords A). i < fst (shape A) \<and> 0 \<le> j \<and> j < int (snd (shape A))"
    using stored_in_range [OF assms] by auto
  from nf have bad: "\<exists>(i, j)\<in>set (stored_coords A). \<not> flat_index A i j < int (fst s * snd s)"
    by (auto simp: fits_def stored_coords_iff)
  have sh0: "shape (lil_empty s :: 'a lil_matrix) = s" by (simp add: lil_empty_def)
  show "reshape A s = Inl ValueError"
    unfolding reshape_def by (rule reshape_loop_fail [OF assms(1) lil_inv_empty sh0 ps bad])
next
  assume "fst (shape A) * snd (shape A) = fst s * snd s"
  then show "fits A s" by (rule same_count_fits [OF assms])
qed

theorem reshape_result_witness:
  "\<exists>B. reshape \<lparr>shape = (2, 2), rows = [[1], [0]], data = [[7 :: int], [8]]\<rparr> (4, 1) = Inr B \<and>
        shape B = (4, 1) \<and>
        get B 1 0 = get \<lparr>shape = (2, 2), rows = [[1], [0]], data = [[7 :: int], [8]]\<rparr> 0 1 \<and>
        get B 2 0 = get \<lparr>shape = (2, 2), rows = [[1], [0]], data = [[7 :: int], [8]]\<rparr> 1 0"
proof -
  let ?A = "\<lparr>shape = (2, 2), rows = [[1], [0]], data = [[7 :: int], [8]]\<rparr>"
  have h1: "lil_inv ?A" by (simp add: lil_inv_def row_ok_def)
  have h2: "cols_in_range ?A" by (simp add: cols_in_range_def)
  have cnt: "fst (shape ?A) * snd (shape ?A) = fst (4 :: nat, 1 :: nat) * snd (4 :: nat, 1 :: nat)"
    by simp
  from reshape_result [OF h1 h2, of "(4, 1)"] cnt
  obtain B where run: "reshape ?A (4, 1) = Inr B" and sh: "shape B = (4, 1)"
    and mv: "\<forall>i j. i < fst (shape ?A) \<and> 0 \<le> j \<and> j < int (snd (shape ?A)) \<and>
                      flat_index ?A i j < int (fst (4 :: nat, 1 :: nat) * snd (4 :: nat, 1 :: nat)) \<longrightarrow>
                  get B (flat_index ?A i j div int (snd (4 :: nat, 1 :: nat)))
                        (flat_index ?A i j mod int (snd (4 :: nat, 1 :: nat))) =
                    get ?A (int i) j"
    by blast
  from mv [rule_format, of 0 1] have a: "get B 1 0 = get ?A 0 1" by (simp add: flat_index_def)
  from mv [rule_format, of 1 0] have b: "get B 2 0 = get ?A 1 0" by (simp add: flat_index_def)
  from run sh a b show ?thesis by blast
qed

text \<open>
  The claim as it is written fails: reshaping to a shape with another element count
  raises nothing when the stored entries fit, be the new shape larger or smaller.
\<close>

theorem reshape_count_mismatch_succeeds:
  "reshape (lil_empty (2, 2) :: int lil_matrix) (3, 3) = Inr (lil_empty (3, 3)) \<and>
   reshape \<lparr>shape = (2, 2), rows = [[0], []], data = [[7 :: int], []]\<rparr> (1, 1) =
     Inr \<lparr>shape = (1, 1), rows = [[0]], data = [[7]]\<rparr> \<and>
   reshape \<lparr>shape = (2, 2), rows = [[0], []], data = [[7 :: int], []]\<rparr> (3, 3) =
     Inr \<lparr>shape = (3, 3), rows = [[0], [], []], data = [[7], [], []]\<rparr>"
  by (simp add: reshape_def stored_coords_def lil_empty_def unravel_index_def get_get1 get1_def
      np_index_def row_get_def bisect_left_def bisect_loop.simps set_elem_set_at set_at_def
      insertat2_def numeral_3_eq_3 numeral_2_eq_2)


section \<open>Sharing of lists between matrices\<close>

lemma np_index_lt: "np_index n i = Inr k \<Longrightarrow> k < n"
  by (auto simp: np_index_def split: if_splits)

text \<open>A \<open>set\<close> changes one column list and one value list of the matrix it is applied to,
  and no array.\<close>

lemma h_set_effect:
  assumes "h_set h A i j x = Inr h'"
  shows "arrays h' = arrays h \<and>
         (\<exists>ra\<in>set (arrays h ! o_rows A). \<forall>b. b \<noteq> ra \<longrightarrow> ilists h' ! b = ilists h ! b) \<and>
         (\<exists>da\<in>set (arrays h ! o_data A). \<forall>b. b \<noteq> da \<longrightarrow> vlists h' ! b = vlists h ! b)"
proof -
  from assms obtain kr kd row' dat' where
    kr: "np_index (length (arrays h ! o_rows A)) i = Inr kr" and
    kd: "np_index (length (arrays h ! o_data A)) i = Inr kd" and
    h': "h' = h\<lparr>ilists := (ilists h)[arrays h ! o_rows A ! kr := row'],
                 vlists := (vlists h)[arrays h ! o_data A ! kd := dat']\<rparr>"
    by (auto simp: h_set_def ebind_eq_Inr)
  have "arrays h ! o_rows A ! kr \<in> set (arrays h ! o_rows A)"
    using np_index_lt [OF kr] by simp
  moreover have "arrays h ! o_data A ! kd \<in> set (arrays h ! o_data A)"
    using np_index_lt [OF kd] by simp
  ultimately show ?thesis unfolding h'
    by (intro conjI bexI [of _ "arrays h ! o_rows A ! kr"] bexI [of _ "arrays h ! o_data A ! kd"])
      simp_all
qed

lemma h_set_other:
  assumes sep: "separate h A B" and st: "h_set h A i j x = Inr h'"
  shows "view h' B = view h B \<and> separate h' A B"
proof -
  from h_set_effect [OF st] obtain ra da where
    ar: "arrays h' = arrays h" and
    ra: "ra \<in> set (arrays h ! o_rows A)" "\<forall>b. b \<noteq> ra \<longrightarrow> ilists h' ! b = ilists h ! b" and
    da: "da \<in> set (arrays h ! o_data A)" "\<forall>b. b \<noteq> da \<longrightarrow> vlists h' ! b = vlists h ! b"
    by blast
  have "\<forall>b\<in>set (arrays h ! o_rows B). b \<noteq> ra" using sep ra(1) by (auto simp: separate_def)
  with ra(2) have r: "map ((!) (ilists h')) (arrays h ! o_rows B) = map ((!) (ilists h)) (arrays h ! o_rows B)"
    by simp
  have "\<forall>b\<in>set (arrays h ! o_data B). b \<noteq> da" using sep da(1) by (auto simp: separate_def)
  with da(2) have d: "map ((!) (vlists h')) (arrays h ! o_data B) = map ((!) (vlists h)) (arrays h ! o_data B)"
    by simp
  show ?thesis using r d ar sep by (simp add: view_def separate_def)
qed

lemma h_set_seq_other:
  assumes "separate h A B" "h_set_seq h A ops = Inr h'"
  shows "view h' B = view h B"
  using assms
proof (induction ops arbitrary: h)
  case Nil
  then show ?case by simp
next
  case (Cons op ops)
  obtain i j x where op: "op = (i, j, x)" by (cases op) auto
  from Cons.prems(2) op obtain h1 where s1: "h_set h A i j x = Inr h1"
    and rest: "h_set_seq h1 A ops = Inr h'"
    by (auto simp: ebind_eq_Inr)
  from h_set_other [OF Cons.prems(1) s1] have "view h1 B = view h B" "separate h1 A B" by simp_all
  with Cons.IH [OF _ rest] show ?case by simp
qed

lemma separate_sym: "separate h A B \<Longrightarrow> separate h B A"
  by (auto simp: separate_def)

text \<open>\<open>copy\<close> puts the contents into lists of its own.\<close>

lemma map_nth_append_old: "\<forall>a\<in>set R. a < length xs \<Longrightarrow> map ((!) (xs @ ys)) R = map ((!) xs) R"
  by (simp add: nth_append)

lemma map_nth_append_new:
  "length ys = n \<Longrightarrow> map ((!) (xs @ ys)) [length xs..<length xs + n] = ys"
  by (rule nth_equalityI) (simp_all add: nth_append)

lemma h_copy_parts:
  fixes h :: "'a heap"
  assumes ok: "obj_ok h S" and cp: "h_copy h S = (h', T)"
  shows "\<exists>il1 vl1 a1 a2.
           length (ilists h) \<le> length il1 \<and> length (vlists h) \<le> length vl1 \<and>
           ilists h' = il1 @ map ((!) (ilists h)) (arrays h ! o_rows S) \<and>
           vlists h' = vl1 @ map ((!) (vlists h)) (arrays h ! o_data S) \<and>
           take (length (ilists h)) il1 = ilists h \<and> take (length (vlists h)) vl1 = vlists h \<and>
           arrays h' = arrays h @ [a1, a2,
              [length vl1..<length vl1 + length (arrays h ! o_data S)],
              [length il1..<length il1 + length (arrays h ! o_rows S)]] \<and>
           T = \<lparr>o_shape = o_shape S, o_rows = length (arrays h) + 3, o_data = length (arrays h) + 2\<rparr>"
proof -
  let ?R = "arrays h ! o_rows S" and ?D = "arrays h ! o_data S"
  let ?M = "fst (o_shape S)"
  from ok have ro: "o_rows S < length (arrays h)" and da: "o_data S < length (arrays h)"
    and Rlt: "\<forall>a\<in>set ?R. a < length (ilists h)" and Dlt: "\<forall>a\<in>set ?D. a < length (vlists h)"
    by (simp_all add: obj_ok_def list_all_iff)
  have r: "map ((!) (ilists h @ replicate ?M [])) ?R = map ((!) (ilists h)) ?R"
    by (rule map_nth_append_old [OF Rlt])
  have d: "map ((!) (vlists h @ replicate ?M [])) ?D = map ((!) (vlists h)) ?D"
    by (rule map_nth_append_old [OF Dlt])
  have il: "ilists h' = (ilists h @ replicate ?M []) @ map ((!) (ilists h @ replicate ?M [])) ?R"
    and vl: "vlists h' = (vlists h @ replicate ?M []) @ map ((!) (vlists h @ replicate ?M [])) ?D"
    and ar: "arrays h' = arrays h @ [[length (ilists h)..<length (ilists h) + ?M],
                               [length (vlists h)..<length (vlists h) + ?M],
                               [length (vlists h @ replicate ?M [])..<
                                  length (vlists h @ replicate ?M []) + length ?D],
                               [length (ilists h @ replicate ?M [])..<
                                  length (ilists h @ replicate ?M []) + length ?R]]"
    and T: "T = \<lparr>o_shape = o_shape S, o_rows = length (arrays h) + 3, o_data = length (arrays h) + 2\<rparr>"
    using cp ro da
    by (auto simp: h_copy_def h_lil_empty_def h_deepcopy_data_def h_deepcopy_rows_def
        nth_append)
  show ?thesis
    apply (rule exI [of _ "ilists h @ replicate ?M []"])
    apply (rule exI [of _ "vlists h @ replicate ?M []"])
    apply (rule exI [of _ "[length (ilists h)..<length (ilists h) + ?M]"])
    apply (rule exI [of _ "[length (vlists h)..<length (vlists h) + ?M]"])
    unfolding il vl ar r d using T by simp
qed

lemma h_copy_fresh:
  fixes h :: "'a heap"
  assumes okA: "obj_ok h A" and okB: "obj_ok h B" and cp: "h_copy h A = (h', T)"
  shows "separate h' T B \<and> view h' T = view h A \<and> view h' B = view h B \<and>
         obj_ok h' T \<and> obj_ok h' B"
proof -
  let ?R = "arrays h ! o_rows A" and ?D = "arrays h ! o_data A"
  let ?RB = "arrays h ! o_rows B" and ?DB = "arrays h ! o_data B"
  from okB have ro: "o_rows B < length (arrays h)" and da: "o_data B < length (arrays h)"
    and Rlt: "\<forall>a\<in>set ?RB. a < length (ilists h)" and Dlt: "\<forall>a\<in>set ?DB. a < length (vlists h)"
    by (simp_all add: obj_ok_def list_all_iff)
  from h_copy_parts [OF okA cp] obtain il1 vl1 a1 a2 where
    li: "length (ilists h) \<le> length il1" and lv: "length (vlists h) \<le> length vl1" and
    il: "ilists h' = il1 @ map ((!) (ilists h)) ?R" and
    vl: "vlists h' = vl1 @ map ((!) (vlists h)) ?D" and
    ti: "take (length (ilists h)) il1 = ilists h" and tv: "take (length (vlists h)) vl1 = vlists h" and
    ar: "arrays h' = arrays h @ [a1, a2, [length vl1..<length vl1 + length ?D],
                                 [length il1..<length il1 + length ?R]]" and
    T: "T = \<lparr>o_shape = o_shape A, o_rows = length (arrays h) + 3, o_data = length (arrays h) + 2\<rparr>"
    by blast
  have aR: "arrays h' ! o_rows B = ?RB" and aD: "arrays h' ! o_data B = ?DB"
    using ro da by (simp_all add: ar nth_append)
  have tR: "arrays h' ! o_rows T = [length il1..<length il1 + length ?R]"
    and tD: "arrays h' ! o_data T = [length vl1..<length vl1 + length ?D]"
    by (simp_all add: ar T nth_append)
  have sep: "separate h' T B"
    unfolding separate_def aR aD tR tD using Rlt Dlt li lv by auto
  have old_i: "il1 ! a = ilists h ! a" if "a < length (ilists h)" for a
    using that ti by (metis nth_take)
  have old_v: "vl1 ! a = vlists h ! a" if "a < length (vlists h)" for a
    using that tv by (metis nth_take)
  have Rlt1: "\<forall>a\<in>set ?RB. a < length il1" and Dlt1: "\<forall>a\<in>set ?DB. a < length vl1"
    using Rlt Dlt li lv by auto
  have "map ((!) il1) ?RB = map ((!) (ilists h)) ?RB" using Rlt old_i by simp
  then have r1: "map ((!) (ilists h')) ?RB = map ((!) (ilists h)) ?RB"
    unfolding il using map_nth_append_old [OF Rlt1] by simp
  have "map ((!) vl1) ?DB = map ((!) (vlists h)) ?DB" using Dlt old_v by simp
  then have d1: "map ((!) (vlists h')) ?DB = map ((!) (vlists h)) ?DB"
    unfolding vl using map_nth_append_old [OF Dlt1] by simp
  have vB: "view h' B = view h B"
    unfolding view_def aR aD r1 d1 ..
  have r2: "map ((!) (ilists h')) (arrays h' ! o_rows T) = map ((!) (ilists h)) ?R"
    unfolding il tR by (rule map_nth_append_new) simp
  have d2: "map ((!) (vlists h')) (arrays h' ! o_data T) = map ((!) (vlists h)) ?D"
    unfolding vl tD by (rule map_nth_append_new) simp
  have vT: "view h' T = view h A"
    unfolding view_def r2 d2 by (simp add: T)
  have okT: "obj_ok h' T"
    unfolding obj_ok_def tR tD by (simp add: ar T il vl list_all_iff)
  have okB': "obj_ok h' B"
    unfolding obj_ok_def aR aD using ro da Rlt1 Dlt1 by (auto simp: ar il vl list_all_iff)
  from sep vT vB okT okB' show ?thesis by simp
qed

text \<open>
  The store and the matrix values agree: when no list sits in two slots of a matrix, a
  \<open>set\<close> in the store is the \<open>set\<close> on its contents.
\<close>

lemma map_nth_update_distinct:
  assumes "distinct R" "k < length R" "\<forall>a\<in>set R. a < length xs"
  shows "map ((!) (xs[R ! k := v])) R = (map ((!) xs) R)[k := v]"
proof (rule nth_equalityI)
  show "length (map ((!) (xs[R ! k := v])) R) = length ((map ((!) xs) R)[k := v])" by simp
next
  fix n assume "n < length (map ((!) (xs[R ! k := v])) R)"
  then have n: "n < length R" by simp
  show "map ((!) (xs[R ! k := v])) R ! n = (map ((!) xs) R)[k := v] ! n"
  proof (cases "n = k")
    case True
    with assms n show ?thesis by simp
  next
    case False
    with assms(1,2) n have "R ! n \<noteq> R ! k" by (simp add: nth_eq_iff_index_eq)
    with False n show ?thesis by simp
  qed
qed

lemma h_set_view:
  fixes h :: "'a::zero heap"
  assumes ok: "obj_ok h A"
    and dr: "distinct (arrays h ! o_rows A)" and dd: "distinct (arrays h ! o_data A)"
    and st: "h_set h A i j x = Inr h'"
  shows "set_at (view h A) i j (Scalar x) = Inr (view h' A)"
proof -
  let ?R = "arrays h ! o_rows A" and ?D = "arrays h ! o_data A"
  from ok have Rlt: "\<forall>a\<in>set ?R. a < length (ilists h)" and Dlt: "\<forall>a\<in>set ?D. a < length (vlists h)"
    by (simp_all add: obj_ok_def list_all_iff)
  from st obtain kr kd row' dat' where
    kr: "np_index (length ?R) i = Inr kr" and kd: "np_index (length ?D) i = Inr kd" and
    ins: "insertat2 (snd (o_shape A)) (ilists h ! (?R ! kr)) (vlists h ! (?D ! kd)) j (Scalar x) =
            Inr (row', dat')" and
    h': "h' = h\<lparr>ilists := (ilists h)[?R ! kr := row'], vlists := (vlists h)[?D ! kd := dat']\<rparr>"
    by (auto simp: h_set_def ebind_eq_Inr)
  have krl: "kr < length ?R" and kdl: "kd < length ?D"
    using np_index_lt [OF kr] np_index_lt [OF kd] by simp_all
  have r: "map ((!) (ilists h')) ?R = (map ((!) (ilists h)) ?R)[kr := row']"
    unfolding h' using map_nth_update_distinct [OF dr krl Rlt] by simp
  have d: "map ((!) (vlists h')) ?D = (map ((!) (vlists h)) ?D)[kd := dat']"
    unfolding h' using map_nth_update_distinct [OF dd kdl Dlt] by simp
  have ar: "arrays h' = arrays h" by (simp add: h')
  have v': "view h' A = (view h A)\<lparr>rows := (rows (view h A))[kr := row'],
                                    data := (data (view h A))[kd := dat']\<rparr>"
    unfolding view_def ar r d by simp
  have "set_at (view h A) i j (Scalar x) =
      Inr ((view h A)\<lparr>rows := (rows (view h A))[kr := row'], data := (data (view h A))[kd := dat']\<rparr>)"
    using kr kd ins krl kdl by (simp add: set_at_def view_def)
  with v' show ?thesis by simp
qed

lemma lil_obj_rebuild: "\<lparr>o_shape = o_shape A, o_rows = o_rows A, o_data = o_data A\<rparr> = A"
  by simp

lemma h_init_sparse_default: "h_init_sparse h S False False = (h, S)"
  by (simp add: h_init_sparse_def h_tolil_def)

text \<open>With \<open>copy=True\<close> or with a \<open>dtype\<close> the constructor returns a matrix on lists of
  its own.\<close>

lemma h_init_sparse_clones:
  fixes h :: "'a heap"
  assumes ok: "obj_ok h S" and flag: "cp \<or> wd" and mk: "h_init_sparse h S cp wd = (h', T)"
  shows "separate h' T S \<and> view h' T = view h S \<and> view h' S = view h S"
proof (cases cp)
  case False
  with flag have wd: wd by simp
  from mk False wd have "h_copy h S = (h', T)"
    by (cases "h_copy h S") (auto simp: h_init_sparse_def h_tolil_def astype_def lil_obj_rebuild)
  from h_copy_fresh [OF ok ok this] show ?thesis by simp
next
  case True
  obtain h1 A1 where c1: "h_copy h S = (h1, A1)" by (cases "h_copy h S") auto
  from h_copy_fresh [OF ok ok c1]
  have s1: "separate h1 A1 S" and v1: "view h1 A1 = view h S" and vS1: "view h1 S = view h S"
    and ok1: "obj_ok h1 A1" and okS1: "obj_ok h1 S" by simp_all
  show ?thesis
  proof (cases wd)
    case False
    with mk True c1 have "h' = h1" "T = A1"
      by (auto simp: h_init_sparse_def lil_obj_rebuild)
    with s1 v1 vS1 show ?thesis by simp
  next
    case wd: True
    from mk True wd c1 have "h_copy h1 A1 = (h', T)"
      by (cases "h_copy h1 A1") (auto simp: h_init_sparse_def astype_def lil_obj_rebuild)
    from h_copy_fresh [OF ok1 okS1 this] v1 vS1 show ?thesis by simp
  qed
qed

lemma h_setitem_full_parts:
  "\<exists>X. h_init_sparse h x False True = (h1, X) \<and> self' = self\<lparr>o_rows := o_rows X, o_data := o_data X\<rparr>"
  if "h_setitem_full h self x = (h1, self')"
  using that by (cases "h_init_sparse h x False True") (auto simp: h_setitem_full_def)

lemma separate_same_arrays:
  "o_rows A = o_rows A' \<Longrightarrow> o_data A = o_data A' \<Longrightarrow> separate h A B = separate h A' B"
  by (simp add: separate_def)

text \<open>
  C8, as the code has it. For a \<^verbatim>\<open>lil_matrix\<close> source \<open>S\<close> in the store:
  \<^item> construction with \<open>copy=True\<close> or with a \<open>dtype\<close> clones: the new matrix has the
    contents of \<open>S\<close>, and no sequence of \<open>set\<close> calls on either changes the contents of
    the other;
  \<^item> construction with the default \<open>copy=False\<close> and no \<open>dtype\<close> returns a matrix on
    the very arrays of \<open>S\<close>, so the two have the same contents in every later store;
  \<^item> the shortcut for \<^verbatim>\<open>self[:, :] = S\<close> clones: \<open>self\<close> keeps its shape and takes
    over the rows and values of \<open>S\<close> in lists of its own, and no sequence of \<open>set\<close> calls
    on either changes the contents of the other.
\<close>

theorem construction_sharing:
  fixes h :: "'a::zero heap"
  assumes "obj_ok h S"
  shows "(\<forall>cp wd h' T. (cp \<or> wd) \<and> h_init_sparse h S cp wd = (h', T) \<longrightarrow>
            view h' T = view h S \<and> view h' S = view h S \<and>
            (\<forall>ops h''. h_set_seq h' T ops = Inr h'' \<longrightarrow> view h'' S = view h' S) \<and>
            (\<forall>ops h''. h_set_seq h' S ops = Inr h'' \<longrightarrow> view h'' T = view h' T)) \<and>
         (\<exists>T. h_init_sparse h S False False = (h, T) \<and>
            o_rows T = o_rows S \<and> o_data T = o_data S \<and> (\<forall>h''. view h'' T = view h'' S)) \<and>
         (\<forall>(self :: lil_obj) h1 self'. h_setitem_full h self S = (h1, self') \<longrightarrow>
            o_shape self' = o_shape self \<and>
            rows (view h1 self') = rows (view h S) \<and> data (view h1 self') = data (view h S) \<and>
            view h1 S = view h S \<and>
            (\<forall>ops h''. h_set_seq h1 self' ops = Inr h'' \<longrightarrow> view h'' S = view h1 S) \<and>
            (\<forall>ops h''. h_set_seq h1 S ops = Inr h'' \<longrightarrow> view h'' self' = view h1 self'))"
proof (intro conjI)
  show "\<forall>cp wd h' T. (cp \<or> wd) \<and> h_init_sparse h S cp wd = (h', T) \<longrightarrow>
            view h' T = view h S \<and> view h' S = view h S \<and>
            (\<forall>ops h''. h_set_seq h' T ops = Inr h'' \<longrightarrow> view h'' S = view h' S) \<and>
            (\<forall>ops h''. h_set_seq h' S ops = Inr h'' \<longrightarrow> view h'' T = view h' T)"
  proof (intro allI impI)
    fix cp wd h' T assume a: "(cp \<or> wd) \<and> h_init_sparse h S cp wd = (h', T)"
    then have flag: "cp \<or> wd" and mk: "h_init_sparse h S cp wd = (h', T)" by simp_all
    from h_init_sparse_clones [OF assms flag mk]
    have sep: "separate h' T S" and vT: "view h' T = view h S" and vS: "view h' S = view h S"
      by simp_all
    have x: "\<forall>ops h''. h_set_seq h' T ops = Inr h'' \<longrightarrow> view h'' S = view h' S"
      using h_set_seq_other [OF sep] by blast
    have y: "\<forall>ops h''. h_set_seq h' S ops = Inr h'' \<longrightarrow> view h'' T = view h' T"
      using h_set_seq_other [OF separate_sym [OF sep]] by blast
    from vT vS x y
    show "view h' T = view h S \<and> view h' S = view h S \<and>
            (\<forall>ops h''. h_set_seq h' T ops = Inr h'' \<longrightarrow> view h'' S = view h' S) \<and>
            (\<forall>ops h''. h_set_seq h' S ops = Inr h'' \<longrightarrow> view h'' T = view h' T)"
      by blast
  qed
next
  show "\<exists>T. h_init_sparse h S False False = (h, T) \<and>
            o_rows T = o_rows S \<and> o_data T = o_data S \<and> (\<forall>h''. view h'' T = view h'' S)"
    using h_init_sparse_default [of h S] by blast
next
  show "\<forall>(self :: lil_obj) h1 self'. h_setitem_full h self S = (h1, self') \<longrightarrow>
            o_shape self' = o_shape self \<and>
            rows (view h1 self') = rows (view h S) \<and> data (view h1 self') = data (view h S) \<and>
            view h1 S = view h S \<and>
            (\<forall>ops h''. h_set_seq h1 self' ops = Inr h'' \<longrightarrow> view h'' S = view h1 S) \<and>
            (\<forall>ops h''. h_set_seq h1 S ops = Inr h'' \<longrightarrow> view h'' self' = view h1 self')"
  proof (intro allI impI)
    fix self :: lil_obj and h1 self' assume st: "h_setitem_full h self S = (h1, self')"
    from h_setitem_full_parts [OF st] obtain X where
      mk: "h_init_sparse h S False True = (h1, X)" and
      s': "self' = self\<lparr>o_rows := o_rows X, o_data := o_data X\<rparr>"
      by blast
    from h_init_sparse_clones [OF assms _ mk]
    have sepX: "separate h1 X S" and vX: "view h1 X = view h S" and vS: "view h1 S = view h S"
      by simp_all
    have "separate h1 self' S = separate h1 X S"
      by (rule separate_same_arrays) (simp_all add: s')
    with sepX have sep: "separate h1 self' S" by simp
    have sh: "o_shape self' = o_shape self" by (simp add: s')
    have "rows (view h1 self') = rows (view h1 X)" "data (view h1 self') = data (view h1 X)"
      by (simp_all add: view_def s')
    with vX have rd: "rows (view h1 self') = rows (view h S)" "data (view h1 self') = data (view h S)"
      by simp_all
    have x: "\<forall>ops h''. h_set_seq h1 self' ops = Inr h'' \<longrightarrow> view h'' S = view h1 S"
      using h_set_seq_other [OF sep] by blast
    have y: "\<forall>ops h''. h_set_seq h1 S ops = Inr h'' \<longrightarrow> view h'' self' = view h1 self'"
      using h_set_seq_other [OF separate_sym [OF sep]] by blast
    from sh rd vS x y
    show "o_shape self' = o_shape self \<and>
            rows (view h1 self') = rows (view h S) \<and> data (view h1 self') = data (view h S) \<and>
            view h1 S = view h S \<and>
            (\<forall>ops h''. h_set_seq h1 self' ops = Inr h'' \<longrightarrow> view h'' S = view h1 S) \<and>
            (\<forall>ops h''. h_set_seq h1 S ops = Inr h'' \<longrightarrow> view h'' self' = view h1 self')"
      by blast
  qed
qed

theorem construction_sharing_witness:
  "(\<exists>h1 self' h''.
      h_setitem_full
        \<lparr>ilists = [[0], [], [], []], vlists = [[3], [], [], [] :: int list],
           arrays = [[0, 1], [0, 1], [2, 3], [2, 3]]\<rparr>
        \<lparr>o_shape = (2, 2), o_rows = 2, o_data = 3\<rparr>
        \<lparr>o_shape = (2, 2), o_rows = 0, o_data = 1\<rparr> = (h1, self') \<and>
      h_set_seq h1 self' [(0, 1, 5)] = Inr h'' \<and>
      view h'' self' = \<lparr>shape = (2, 2), rows = [[0, 1], []], data = [[3, 5], []]\<rparr> \<and>
      view h'' \<lparr>o_shape = (2, 2), o_rows = 0, o_data = 1\<rparr> =
        \<lparr>shape = (2, 2), rows = [[0], []], data = [[3], []]\<rparr>) \<and>
   (\<exists>h' T k''.
      h_init_sparse
        \<lparr>ilists = [[0], [], [], []], vlists = [[3], [], [], [] :: int list],
           arrays = [[0, 1], [0, 1], [2, 3], [2, 3]]\<rparr>
        \<lparr>o_shape = (2, 2), o_rows = 0, o_data = 1\<rparr> True False = (h', T) \<and>
      h_set_seq h' T [(0, 1, 5)] = Inr k'' \<and>
      view k'' T = \<lparr>shape = (2, 2), rows = [[0, 1], []], data = [[3, 5], []]\<rparr> \<and>
      view k'' \<lparr>o_shape = (2, 2), o_rows = 0, o_data = 1\<rparr> =
        \<lparr>shape = (2, 2), rows = [[0], []], data = [[3], []]\<rparr>)"
proof -
  let ?h = "\<lparr>ilists = [[0], [], [], []], vlists = [[3], [], [], [] :: int list],
             arrays = [[0, 1], [0, 1], [2, 3], [2, 3]]\<rparr>"
  let ?S = "\<lparr>o_shape = (2, 2), o_rows = 0, o_data = 1\<rparr>"
  let ?self = "\<lparr>o_shape = (2, 2), o_rows = 2, o_data = 3\<rparr>"
  let ?h1 = "\<lparr>ilists = [[0], [], [], [], [], [], [0], []],
              vlists = [[3], [], [], [], [], [], [3], [] :: int list],
              arrays = [[0, 1], [0, 1], [2, 3], [2, 3], [4, 5], [4, 5], [6, 7], [6, 7]]\<rparr>"
  let ?T = "\<lparr>o_shape = (2, 2), o_rows = 7, o_data = 6\<rparr>"
  let ?h2 = "\<lparr>ilists = [[0], [], [], [], [], [], [0, 1], []],
              vlists = [[3], [], [], [], [], [], [3, 5], [] :: int list],
              arrays = [[0, 1], [0, 1], [2, 3], [2, 3], [4, 5], [4, 5], [6, 7], [6, 7]]\<rparr>"
  have ok: "obj_ok ?h ?S" by (simp add: obj_ok_def)
  have cpy: "h_copy ?h ?S = (?h1, ?T)"
    by (simp add: h_copy_def h_lil_empty_def h_deepcopy_data_def h_deepcopy_rows_def upt_rec
        numeral_2_eq_2)
  have st: "h_setitem_full ?h ?self ?S = (?h1, ?T)"
    by (simp add: h_setitem_full_def h_init_sparse_def h_tolil_def astype_def cpy del: One_nat_def)
  have mk: "h_init_sparse ?h ?S True False = (?h1, ?T)"
    by (simp add: h_init_sparse_def cpy del: One_nat_def)
  have run: "h_set_seq ?h1 ?T [(0, 1, 5)] = Inr ?h2"
    by (simp add: h_set_def np_index_def insertat2_def bisect_left_def bisect_loop.simps)
  have vT: "view ?h2 ?T = \<lparr>shape = (2, 2), rows = [[0, 1], []], data = [[3, 5], []]\<rparr>"
    by (simp add: view_def)
  have v0: "view ?h ?S = \<lparr>shape = (2, 2), rows = [[0], []], data = [[3], []]\<rparr>"
    by (simp add: view_def)
  from construction_sharing [OF ok] st run
  have "view ?h1 ?S = view ?h ?S" and "view ?h2 ?S = view ?h1 ?S" by blast+
  with v0 have vS: "view ?h2 ?S = \<lparr>shape = (2, 2), rows = [[0], []], data = [[3], []]\<rparr>"
    by simp
  have first: "\<exists>h1 self' h''. h_setitem_full ?h ?self ?S = (h1, self') \<and>
      h_set_seq h1 self' [(0, 1, 5)] = Inr h'' \<and>
      view h'' self' = \<lparr>shape = (2, 2), rows = [[0, 1], []], data = [[3, 5], []]\<rparr> \<and>
      view h'' ?S = \<lparr>shape = (2, 2), rows = [[0], []], data = [[3], []]\<rparr>"
    by (intro exI [of _ ?h1] exI [of _ ?T] exI [of _ ?h2] conjI st run vT vS)
  from construction_sharing [OF ok] mk run
  have "view ?h1 ?S = view ?h ?S" and "view ?h2 ?S = view ?h1 ?S" by blast+
  with v0 have vS': "view ?h2 ?S = \<lparr>shape = (2, 2), rows = [[0], []], data = [[3], []]\<rparr>"
    by simp
  have second: "\<exists>h' T k''. h_init_sparse ?h ?S True False = (h', T) \<and>
      h_set_seq h' T [(0, 1, 5)] = Inr k'' \<and>
      view k'' T = \<lparr>shape = (2, 2), rows = [[0, 1], []], data = [[3, 5], []]\<rparr> \<and>
      view k'' ?S = \<lparr>shape = (2, 2), rows = [[0], []], data = [[3], []]\<rparr>"
    by (intro exI [of _ ?h1] exI [of _ ?T] exI [of _ ?h2] conjI mk run vT vS')
  from first second show ?thesis by (rule conjI)
qed

text \<open>
  The claim as it is written fails: \<^verbatim>\<open>lil_matrix(S)\<close> with the default arguments shares
  the lists of \<open>S\<close>, and a \<open>set\<close> on the new matrix changes \<open>S\<close>.
\<close>

theorem default_construction_aliases:
  "\<exists>T h''.
     h_init_sparse
       \<lparr>ilists = [[], []], vlists = [[], [] :: int list], arrays = [[0, 1], [0, 1]]\<rparr>
       \<lparr>o_shape = (2, 2), o_rows = 0, o_data = 1\<rparr> False False =
       (\<lparr>ilists = [[], []], vlists = [[], []], arrays = [[0, 1], [0, 1]]\<rparr>, T) \<and>
     h_set_seq \<lparr>ilists = [[], []], vlists = [[], [] :: int list], arrays = [[0, 1], [0, 1]]\<rparr> T
       [(0, 1, 5)] = Inr h'' \<and>
     view \<lparr>ilists = [[], []], vlists = [[], [] :: int list], arrays = [[0, 1], [0, 1]]\<rparr>
       \<lparr>o_shape = (2, 2), o_rows = 0, o_data = 1\<rparr> =
       \<lparr>shape = (2, 2), rows = [[], []], data = [[], []]\<rparr> \<and>
     view h'' \<lparr>o_shape = (2, 2), o_rows = 0, o_data = 1\<rparr> =
       \<lparr>shape = (2, 2), rows = [[1], []], data = [[5 :: int], []]\<rparr>"
proof -
  let ?h = "\<lparr>ilists = [[], []], vlists = [[], [] :: int list], arrays = [[0, 1], [0, 1]]\<rparr>"
  let ?S = "\<lparr>o_shape = (2, 2), o_rows = 0, o_data = 1\<rparr>"
  let ?h'' = "\<lparr>ilists = [[1], []], vlists = [[5], [] :: int list], arrays = [[0, 1], [0, 1]]\<rparr>"
  have mk: "h_init_sparse ?h ?S False False = (?h, ?S)"
    by (rule h_init_sparse_default)
  have run: "h_set_seq ?h ?S [(0, 1, 5)] = Inr ?h''"
    by (simp add: h_set_def np_index_def insertat2_def bisect_left_def bisect_loop.simps)
  have v0: "view ?h ?S = \<lparr>shape = (2, 2), rows = [[], []], data = [[], []]\<rparr>"
    by (simp add: view_def)
  have v1: "view ?h'' ?S = \<lparr>shape = (2, 2), rows = [[1], []], data = [[5], []]\<rparr>"
    by (simp add: view_def)
  show ?thesis
    by (rule exI [of _ ?S], rule exI [of _ ?h'']) (intro conjI mk run v0 v1)
qed


end
